theory Spec2Isabelle
  imports Complex_Main
begin

section \<open>The style descriptor and its mutators\<close>

text \<open>
  The editor component keeps three pieces of state: the document text, the title and the
  style descriptor \<open>TextStyle\<close>. The descriptor is an object with six fields; its
  \<open>align\<close> field ranges over four string literals and the argument of \<open>toggleStyle\<close>
  over the names of the three boolean fields. The component only ever changes the font size
  by the integer steps of its two buttons, so \<open>fontSize\<close> is an integer here.
\<close>

datatype alignment = Left | Center | Right | Justify

datatype style_property = Bold | Italic | Underline

record TextStyle =
  bold :: bool
  italic :: bool
  underline :: bool
  fontSize :: int
  color :: string
  align :: alignment

definition initial_style :: TextStyle where
  "initial_style =
     \<lparr>bold = False, italic = False, underline = False, fontSize = 11,
      color = ''#737373'', align = Left\<rparr>"

text \<open>
  Every mutator hands React an updater \<open>(prev) => ({ ...prev, field: value })\<close>; the model
  is the updater itself, a function from the previous descriptor to the next one.
\<close>

fun toggleStyle :: "style_property \<Rightarrow> TextStyle \<Rightarrow> TextStyle" where
  "toggleStyle Bold prev = prev\<lparr>bold := \<not> bold prev\<rparr>"
| "toggleStyle Italic prev = prev\<lparr>italic := \<not> italic prev\<rparr>"
| "toggleStyle Underline prev = prev\<lparr>underline := \<not> underline prev\<rparr>"

definition setAlignment :: "alignment \<Rightarrow> TextStyle \<Rightarrow> TextStyle" where
  "setAlignment a prev = prev\<lparr>align := a\<rparr>"

definition changeFontSize :: "int \<Rightarrow> TextStyle \<Rightarrow> TextStyle" where
  "changeFontSize delta prev = prev\<lparr>fontSize := max 8 (min 72 (fontSize prev + delta))\<rparr>"

definition changeColor :: "string \<Rightarrow> TextStyle \<Rightarrow> TextStyle" where
  "changeColor c prev = prev\<lparr>color := c\<rparr>"

text \<open>
  The user actions that reach the descriptor: every call of \<open>setStyle\<close> in the component
  sits inside one of the four mutators.
\<close>

datatype action =
  ToggleStyle style_property
| SetAlignment alignment
| ChangeFontSize int
| ChangeColor string

fun apply_action :: "TextStyle \<Rightarrow> action \<Rightarrow> TextStyle" where
  "apply_action st (ToggleStyle p) = toggleStyle p st"
| "apply_action st (SetAlignment a) = setAlignment a st"
| "apply_action st (ChangeFontSize d) = changeFontSize d st"
| "apply_action st (ChangeColor c) = changeColor c st"

definition run_actions :: "action list \<Rightarrow> TextStyle" where
  "run_actions acts = foldl apply_action initial_style acts"

definition fontSize_ok :: "TextStyle \<Rightarrow> bool" where
  "fontSize_ok st \<longleftrightarrow> 8 \<le> fontSize st \<and> fontSize st \<le> 72"

section \<open>Strings\<close>

text \<open>
  A string is a list of code units; a \<open>char\<close> stands for a code unit below 256. The
  white space of ECMAScript in that range, which \<open>trim\<close> strips and the pattern \<open>\s\<close>
  matches, is TAB, LF, VT, FF, CR, SP and NBSP.
\<close>

definition is_space :: "char \<Rightarrow> bool" where
  "is_space c \<longleftrightarrow>
     c = CHR 0x09 \<or> c = CHR 0x0A \<or> c = CHR 0x0B \<or> c = CHR 0x0C \<or> c = CHR 0x0D \<or>
     c = CHR 0x20 \<or> c = CHR 0xA0"

definition trim :: "string \<Rightarrow> string" where
  "trim s = rev (dropWhile is_space (rev (dropWhile is_space s)))"

text \<open>
  \<open>s.split(sep)\<close> for a separator of one character: a string with \<open>n\<close> separators
  gives \<open>n + 1\<close> pieces, empty ones included, and the empty string gives one empty piece.
  A split is never the empty list, so the first branch of the inner \<open>case\<close> is never taken;
  the same holds for \<open>split_ws\<close> below.
\<close>

fun split_on :: "char \<Rightarrow> string \<Rightarrow> string list" where
  "split_on sep [] = [[]]"
| "split_on sep (c # cs) =
     (if c = sep then [] # split_on sep cs
      else (case split_on sep cs of [] \<Rightarrow> [[c]] | w # ws \<Rightarrow> (c # w) # ws))"

text \<open>
  \<open>s.split(/\s+/)\<close>: the separators are the maximal runs of white space, so a leading or
  a trailing run leaves an empty piece at that end.
\<close>

function split_ws :: "string \<Rightarrow> string list" where
  "split_ws [] = [[]]"
| "split_ws (c # cs) =
     (if is_space c then [] # split_ws (dropWhile is_space cs)
      else (case split_ws cs of [] \<Rightarrow> [[c]] | w # ws \<Rightarrow> (c # w) # ws))"
  by pat_completeness auto
termination
  by (relation "measure length") (auto simp: less_Suc_eq_le length_dropWhile_le)

text \<open>The decimal digits of a number, as template literals print an integer.\<close>

fun digits :: "nat \<Rightarrow> string" where
  "digits n =
     (if n < 10 then [char_of (48 + n)] else digits (n div 10) @ [char_of (48 + n mod 10)])"

definition number_string :: "int \<Rightarrow> string" where
  "number_string i = (if i < 0 then CHR ''-'' # digits (nat (- i)) else digits (nat i))"

section \<open>Numbers\<close>

text \<open>
  The numbers of the program are IEEE doubles. The model keeps their values as reals. Two
  computations are sensitive to the rounding of doubles: the placement of the words of a
  justified line, a chain of sums that ends in the position of the last word, and the size of
  the canvas, a product that the host cuts to an integer. There every operation is followed
  by the rounding \<open>rn\<close> of its exact result to the nearest double, as the standard
  prescribes; \<open>rn\<close> is a parameter of the model, and the theorems say what they need of it.
  Elsewhere the model computes in the reals: the line height, the text height and the
  vertical positions are multiples of one half, which doubles hold exactly, and the
  horizontal position of a line that is not justified is one or two operations away from
  its measured width.
\<close>

text \<open>A rounding for the examples, coarser than doubles: to the nearest multiple of 1/1024.\<close>

definition nearest_1024th :: "real \<Rightarrow> real" where
  "nearest_1024th x = real_of_int \<lfloor>x * 1024 + 1 / 2\<rfloor> / 1024"

section \<open>The drawing surface\<close>

text \<open>
  The canvas element and its 2D context are the host's. The model keeps what the export
  writes: the two size attributes, which are the size of the bitmap in pixels, the two CSS
  sizes (in px), the context's font, fill style, text baseline and scale, and the log of the
  drawing calls. A stroke is logged with the stroke style and line width that the code sets
  just before it.
\<close>

datatype draw_op =
  ClearRect real real real real
| FillText string real real
| StrokeLine real real real real string real

record canvas =
  cv_width :: nat
  cv_height :: nat
  style_width :: real
  style_height :: real
  ctx_font :: string
  ctx_fillStyle :: string
  ctx_textBaseline :: string
  ctx_scale :: real
  ctx_ops :: "draw_op list"

text \<open>
  \<open>canvas.width\<close> and \<open>canvas.height\<close> are attributes of type \<open>unsigned long\<close>. The host
  converts an assigned number by dropping its fraction and reducing it modulo \<open>2^32\<close>, and a
  result above \<open>2^31 - 1\<close> is replaced by the default of the attribute, 300 for the width and
  150 for the height.
\<close>

definition unsigned_long :: "real \<Rightarrow> nat" where
  "unsigned_long x = nat ((if 0 \<le> x then \<lfloor>x\<rfloor> else - \<lfloor>- x\<rfloor>) mod 4294967296)"

definition canvas_dimension :: "nat \<Rightarrow> real \<Rightarrow> nat" where
  "canvas_dimension dflt x =
     (if unsigned_long x \<le> 2147483647 then unsigned_long x else dflt)"

text \<open>
  Assigning either attribute also clears the bitmap and resets the context to its default
  state; this is the host's behaviour, which the export relies on when it sizes the surface
  before it sets any drawing parameter.
\<close>

definition reset_context :: "canvas \<Rightarrow> canvas" where
  "reset_context c =
     c\<lparr>ctx_font := ''10px sans-serif'', ctx_fillStyle := ''#000000'',
       ctx_textBaseline := ''alphabetic'', ctx_scale := 1, ctx_ops := []\<rparr>"

definition set_width :: "real \<Rightarrow> canvas \<Rightarrow> canvas" where
  "set_width w c = reset_context (c\<lparr>cv_width := canvas_dimension 300 w\<rparr>)"

definition set_height :: "real \<Rightarrow> canvas \<Rightarrow> canvas" where
  "set_height h c = reset_context (c\<lparr>cv_height := canvas_dimension 150 h\<rparr>)"

definition draw :: "draw_op list \<Rightarrow> canvas \<Rightarrow> canvas" where
  "draw os c = c\<lparr>ctx_ops := ctx_ops c @ os\<rparr>"

text \<open>
  What the export reads from the host: the device pixel ratio, the text measurement of the
  context (a width for a font and a string) and the PNG encoder behind \<open>toBlob\<close>, which may
  hand back no data.
\<close>

record host =
  devicePixelRatio :: real
  measureText :: "string \<Rightarrow> string \<Rightarrow> real"
  toBlob :: "canvas \<Rightarrow> string option"

text \<open>\<open>window.devicePixelRatio || 1\<close>: a ratio of zero is falsy.\<close>

definition deviceScale :: "host \<Rightarrow> real" where
  "deviceScale h = (if devicePixelRatio h = 0 then 1 else devicePixelRatio h)"

section \<open>The export\<close>

definition fixedWidth :: real where
  "fixedWidth = 600"

definition padding :: real where
  "padding = 1"

definition availableWidth :: real where
  "availableWidth = fixedWidth - padding * 2"

definition font_string :: "TextStyle \<Rightarrow> string" where
  "font_string style =
     (if italic style then ''italic '' else '''') @ (if bold style then ''bold '' else '''') @
     number_string (fontSize style) @ ''px system-ui, -apple-system, sans-serif''"

text \<open>The lines of the document that are not blank.\<close>

definition document_lines :: "string \<Rightarrow> string list" where
  "document_lines text = filter (\<lambda>line. trim line \<noteq> '''') (split_on CHR 0x0A text)"

subsection \<open>The greedy wrap\<close>

text \<open>
  The body of the inner \<open>forEach\<close>, on the pair of the lines pushed so far and the current
  line. An empty string is falsy, so both tests of \<open>currentLine\<close> ask whether it is empty.
\<close>

definition wrap_word ::
  "(string \<Rightarrow> real) \<Rightarrow> real \<Rightarrow> string list \<times> string \<Rightarrow> string \<Rightarrow> string list \<times> string" where
  "wrap_word m maxWidth state word =
     (let wrappedLines = fst state; currentLine = snd state;
          testLine = (if currentLine \<noteq> '''' then currentLine @ '' '' @ word else word);
          testWidth = m testLine
      in if testWidth \<le> maxWidth then (wrappedLines, testLine)
         else if currentLine \<noteq> '''' then (wrappedLines @ [currentLine], word)
         else (wrappedLines @ [word], currentLine))"

text \<open>The body of the outer \<open>forEach\<close>.\<close>

definition wrap_line ::
  "(string \<Rightarrow> real) \<Rightarrow> real \<Rightarrow> string list \<Rightarrow> string \<Rightarrow> string list" where
  "wrap_line m maxWidth wrappedLines line =
     (if trim line = '''' then wrappedLines
      else
        (let state = foldl (wrap_word m maxWidth) (wrappedLines, '''') (split_on CHR '' '' line)
         in if snd state \<noteq> '''' then fst state @ [snd state] else fst state))"

definition wrap :: "(string \<Rightarrow> real) \<Rightarrow> real \<Rightarrow> string list \<Rightarrow> string list" where
  "wrap m maxWidth lines = foldl (wrap_line m maxWidth) [] lines"

subsection \<open>Placing and drawing a line\<close>

definition lineHeight :: "TextStyle \<Rightarrow> real" where
  "lineHeight style = real_of_int (fontSize style) * 1.5"

definition textHeight :: "TextStyle \<Rightarrow> string list \<Rightarrow> real" where
  "textHeight style wrappedLines =
     real (length wrappedLines) * lineHeight style
       - (lineHeight style - real_of_int (fontSize style))"

definition underline_stroke :: "TextStyle \<Rightarrow> real \<Rightarrow> real \<Rightarrow> real \<Rightarrow> draw_op list" where
  "underline_stroke style x y w =
     (if underline style
      then [StrokeLine x (y + real_of_int (fontSize style) + 2)
              (x + w) (y + real_of_int (fontSize style) + 2) (color style) 1]
      else [])"

text \<open>
  The three constants of a justified line, each operation rounded: the widths of the words
  summed from 0 by \<open>reduce\<close>, the slack that is left of the available width, and its share
  for each of the gaps.
\<close>

definition totalTextWidth :: "(real \<Rightarrow> real) \<Rightarrow> (string \<Rightarrow> real) \<Rightarrow> string list \<Rightarrow> real" where
  "totalTextWidth rn m words = foldl (\<lambda>sum word. rn (sum + m word)) 0 words"

definition totalSpaceWidth :: "(real \<Rightarrow> real) \<Rightarrow> (string \<Rightarrow> real) \<Rightarrow> string list \<Rightarrow> real" where
  "totalSpaceWidth rn m words = rn (availableWidth - totalTextWidth rn m words)"

definition spaceWidth :: "(real \<Rightarrow> real) \<Rightarrow> (string \<Rightarrow> real) \<Rightarrow> string list \<Rightarrow> real" where
  "spaceWidth rn m words = rn (totalSpaceWidth rn m words / (real (length words) - 1))"

text \<open>
  The loop over the words of a justified line, started at \<open>currentX = padding\<close>. The test
  \<open>wordIndex < words.length - 1\<close> holds exactly when words remain after this one; then
  \<open>currentX += measure + spaceWidth\<close> is two additions, each rounded. The argument \<open>space\<close>
  is the \<open>spaceWidth\<close> of the line.
\<close>

fun justify_words ::
  "(real \<Rightarrow> real) \<Rightarrow> (string \<Rightarrow> real) \<Rightarrow> TextStyle \<Rightarrow> real \<Rightarrow> real \<Rightarrow> real \<Rightarrow> string list
     \<Rightarrow> draw_op list" where
  "justify_words rn m style space y currentX [] = []"
| "justify_words rn m style space y currentX (word # rest) =
     FillText word currentX y # underline_stroke style currentX y (m word) @
     justify_words rn m style space y
       (if rest \<noteq> [] then rn (currentX + rn (m word + space)) else currentX) rest"

text \<open>
  The body of the loop over the wrapped lines: what is drawn for the line at \<open>index\<close> of
  \<open>count\<close> wrapped lines.
\<close>

definition render_line ::
  "(real \<Rightarrow> real) \<Rightarrow> (string \<Rightarrow> real) \<Rightarrow> TextStyle \<Rightarrow> nat \<Rightarrow> nat \<Rightarrow> string \<Rightarrow> draw_op list" where
  "render_line rn m style count index line =
     (let y = padding + real index * lineHeight style
      in if align style = Justify \<and> trim line \<noteq> '''' \<and> int index < int count - 1 then
           (let words = split_ws (trim line)
            in if length words > 1 then
                 justify_words rn m style (spaceWidth rn m words) y padding words
               else FillText line padding y # underline_stroke style padding y (m line))
         else
           (let textWidth = m line;
                x = (if align style = Center then (fixedWidth - textWidth) / 2
                     else if align style = Right then fixedWidth - textWidth - padding
                     else padding)
            in FillText line x y # underline_stroke style x y textWidth))"

text \<open>
  The loop over the wrapped lines: the drawing calls of each pass, in order, and all of
  them in sequence.
\<close>

definition render_passes ::
  "(real \<Rightarrow> real) \<Rightarrow> (string \<Rightarrow> real) \<Rightarrow> TextStyle \<Rightarrow> string list \<Rightarrow> draw_op list list" where
  "render_passes rn m style wrappedLines =
     map (\<lambda>(index, line). render_line rn m style (length wrappedLines) index line)
         (zip [0 ..< length wrappedLines] wrappedLines)"

definition render_lines ::
  "(real \<Rightarrow> real) \<Rightarrow> (string \<Rightarrow> real) \<Rightarrow> TextStyle \<Rightarrow> string list \<Rightarrow> draw_op list" where
  "render_lines rn m style wrappedLines = concat (render_passes rn m style wrappedLines)"

subsection \<open>The export as a whole\<close>

text \<open>
  \<open>downloadAsPNG\<close> takes the rounding of the numbers, the host, the canvas behind
  \<open>canvasRef\<close> (\<open>None\<close> when the reference is empty or the canvas has no 2D context) and the
  three pieces of editor state. It returns the canvas as the call leaves it and the download
  it triggers, a file name with the encoded bytes, if any. Text is measured with the font the
  context has at that moment.
\<close>

definition file_name :: "string \<Rightarrow> string" where
  "file_name title = (if title \<noteq> '''' then title @ ''.png'' else ''text-editor-export.png'')"

definition downloadAsPNG ::
  "(real \<Rightarrow> real) \<Rightarrow> host \<Rightarrow> canvas option \<Rightarrow> string \<Rightarrow> TextStyle \<Rightarrow> string
     \<Rightarrow> canvas option \<times> (string \<times> string) option" where
  "downloadAsPNG rn h canvasRef text style title =
     (case canvasRef of
        None \<Rightarrow> (None, None)
      | Some canvas \<Rightarrow>
          (let dpr = deviceScale h;
               c1 = canvas\<lparr>ctx_font := font_string style\<rparr>;
               lines = document_lines text
           in if length lines = 0 then (Some c1, None)
              else
                (let wrappedLines = wrap (measureText h (ctx_font c1)) availableWidth lines;
                     th = textHeight style wrappedLines;
                     canvasWidth = rn (fixedWidth * dpr);
                     canvasHeight = rn ((th + padding * 2) * dpr);
                     c2 = set_height canvasHeight (set_width canvasWidth c1);
                     c3 = c2\<lparr>style_width := fixedWidth, style_height := th + padding * 2\<rparr>;
                     c4 = c3\<lparr>ctx_scale := ctx_scale c3 * dpr\<rparr>;
                     c5 = draw [ClearRect 0 0 fixedWidth (th + padding * 2)] c4;
                     c6 = c5\<lparr>ctx_font := font_string style, ctx_fillStyle := color style,
                             ctx_textBaseline := ''top''\<rparr>;
                     c7 = draw (render_lines rn (measureText h (ctx_font c6)) style wrappedLines) c6
                 in (Some c7, map_option (\<lambda>blob. (file_name title, blob)) (toBlob h c7)))))"

section \<open>Notions used to state the properties\<close>

text \<open>
  The words of a text with white space collapsed: the pieces between runs of white space,
  without the empty pieces at the two ends.
\<close>

definition words_of :: "string \<Rightarrow> string list" where
  "words_of s = filter (\<lambda>w. w \<noteq> '''') (split_ws s)"

text \<open>
  The words of a line as the line breaker cuts them, at single spaces, without the blank
  ones.
\<close>

definition space_words :: "string \<Rightarrow> string list" where
  "space_words s = filter (\<lambda>w. trim w \<noteq> '''') (split_on CHR '' '' s)"

text \<open>
  An equivalent scan for \<open>words_of\<close> that carries the word being read; it is only used in
  proofs.
\<close>

fun words_acc :: "string \<Rightarrow> string \<Rightarrow> string list" where
  "words_acc cur [] = (if cur = [] then [] else [cur])"
| "words_acc cur (c # cs) =
     (if is_space c then (if cur = [] then words_acc [] cs else cur # words_acc [] cs)
      else words_acc (cur @ [c]) cs)"

text \<open>The strings that a sequence of drawing calls fills, each with its x position.\<close>

fun fills :: "draw_op list \<Rightarrow> (string \<times> real) list" where
  "fills [] = []"
| "fills (FillText s x y # os) = (s, x) # fills os"
| "fills (ClearRect x y w h # os) = fills os"
| "fills (StrokeLine x1 y1 x2 y2 c w # os) = fills os"

text \<open>A measurement for the examples: every character is \<open>w\<close> wide.\<close>

definition monospace :: "real \<Rightarrow> string \<Rightarrow> real" where
  "monospace w s = w * real (length s)"

text \<open>
  A host and a canvas for the examples: a display of pixel ratio 2 that measures every
  character 10 wide in every font and encodes every surface, and the hidden canvas as the
  component mounts it, 800 by 600 with a context in its default state.
\<close>

definition example_host :: host where
  "example_host =
     \<lparr>devicePixelRatio = 2, measureText = (\<lambda>font. monospace 10), toBlob = (\<lambda>c. Some ''PNG'')\<rparr>"

definition mounted_canvas :: canvas where
  "mounted_canvas =
     \<lparr>cv_width = 800, cv_height = 600, style_width = 800, style_height = 600,
      ctx_font = ''10px sans-serif'', ctx_fillStyle = ''#000000'',
      ctx_textBaseline = ''alphabetic'', ctx_scale = 1, ctx_ops = []\<rparr>"

lemmas eval_defs = document_lines_def wrap_def wrap_line_def wrap_word_def trim_def is_space_def
  monospace_def Let_def words_of_def space_words_def

section \<open>Facts about splitting and trimming\<close>

lemma split_on_not_Nil: "split_on c s \<noteq> []"
  by (induction s) (auto split: list.splits)

lemma split_on_append:
  "split_on c (a @ c # b) = split_on c a @ split_on c b"
  by (induction a) (auto split: list.splits simp: split_on_not_Nil)

lemma split_on_no_sep: "c \<notin> set w \<Longrightarrow> split_on c w = [w]"
  by (induction w) auto

lemma split_on_piece_no_sep: "w \<in> set (split_on c s) \<Longrightarrow> c \<notin> set w"
  by (induction s arbitrary: w) (auto split: if_splits list.splits)

lemma additive_split_on:
  assumes "f [] = []" and "\<And>a b. f (a @ c # b) = f a @ f b"
  shows "concat (map f (split_on c s)) = f s"
proof (induction s rule: length_induct)
  case (1 s)
  show ?case
  proof (cases "c \<in> set s")
    case False
    then show ?thesis by (simp add: split_on_no_sep)
  next
    case True
    then obtain a b where s: "s = a @ c # b" and "c \<notin> set a"
      by (meson split_list_first)
    have "length b < length s" using s by simp
    with 1 have "concat (map f (split_on c b)) = f b" by blast
    then show ?thesis
      using s \<open>c \<notin> set a\<close> assms by (simp add: split_on_append split_on_no_sep)
  qed
qed

lemma split_on_pieces_subset: "\<forall>w\<in>set (split_on c s). set w \<subseteq> set s"
  by (induction s) (auto split: list.splits)

lemma split_on_piece_subset: "w \<in> set (split_on c s) \<Longrightarrow> set w \<subseteq> set s"
  using split_on_pieces_subset by blast

lemma all_dropWhile: "(\<forall>x\<in>set (dropWhile P s). P x) \<longleftrightarrow> (\<forall>x\<in>set s. P x)"
  by (induction s) auto

lemma trim_Nil_iff: "trim s = [] \<longleftrightarrow> (\<forall>c\<in>set s. is_space c)"
  by (simp add: trim_def dropWhile_eq_Nil_conv all_dropWhile)

lemma last_dropWhile: "dropWhile P xs \<noteq> [] \<Longrightarrow> last (dropWhile P xs) = last xs"
  by (induction xs) (auto split: if_splits)

lemma split_ws_not_Nil: "split_ws s \<noteq> []"
  by (induction s rule: split_ws.induct) (auto split: list.splits)

lemma split_ws_hd_Nil: "hd (split_ws s) = [] \<Longrightarrow> s = [] \<or> is_space (hd s)"
  using split_ws_not_Nil [of "tl s"]
  by (cases s) (auto split: if_splits list.splits)

lemma split_ws_tl_Nil: "[] \<in> set (tl (split_ws s)) \<Longrightarrow> s \<noteq> [] \<and> is_space (last s)"
proof (induction s rule: split_ws.induct)
  case 1
  then show ?case by simp
next
  case (2 c cs)
  show ?case
  proof (cases "is_space c")
    case True
    let ?d = "dropWhile is_space cs"
    from True "2.prems" have mem: "[] \<in> set (split_ws ?d)" by simp
    show ?thesis
    proof (cases "?d = []")
      case True
      then have "\<forall>x\<in>set cs. is_space x" by (simp add: dropWhile_eq_Nil_conv)
      with \<open>is_space c\<close> show ?thesis by (cases cs) auto
    next
      case False
      then have "\<not> is_space (hd ?d)" by (simp add: hd_dropWhile)
      with False have "hd (split_ws ?d) \<noteq> []" using split_ws_hd_Nil by blast
      with mem have "[] \<in> set (tl (split_ws ?d))"
        using split_ws_not_Nil [of ?d] by (cases "split_ws ?d") auto
      from "2.IH"(1) [OF True this] have "is_space (last ?d)" by simp
      moreover have "last ?d = last cs" using False by (rule last_dropWhile)
      moreover have "cs \<noteq> []" using False by auto
      ultimately show ?thesis by simp
    qed
  next
    case False
    obtain h t where ht: "split_ws cs = h # t"
      using split_ws_not_Nil [of cs] by (cases "split_ws cs") auto
    with False "2.prems" have "[] \<in> set (tl (split_ws cs))" by simp
    from "2.IH"(2) [OF False this] show ?thesis by simp
  qed
qed

lemma split_ws_no_empty:
  assumes "s \<noteq> []" and "\<not> is_space (hd s)" and "\<not> is_space (last s)"
  shows "[] \<notin> set (split_ws s)"
proof
  assume "[] \<in> set (split_ws s)"
  then have "hd (split_ws s) = [] \<or> [] \<in> set (tl (split_ws s))"
    using split_ws_not_Nil [of s] by (cases "split_ws s") auto
  then show False using assms split_ws_hd_Nil split_ws_tl_Nil by blast
qed

lemma trim_ends:
  assumes "trim s \<noteq> []"
  shows "\<not> is_space (hd (trim s)) \<and> \<not> is_space (last (trim s))"
proof -
  let ?d = "dropWhile is_space s"
  let ?e = "dropWhile is_space (rev ?d)"
  have e: "?e \<noteq> []" using assms by (simp add: trim_def)
  have d: "?d \<noteq> []"
  proof
    assume "?d = []"
    then have "?e = []" by (simp only: rev.simps(1) dropWhile.simps(1))
    with e show False by contradiction
  qed
  have "last (trim s) = hd ?e" unfolding trim_def by (metis last_rev)
  moreover have "\<not> is_space (hd ?e)" using e by (rule hd_dropWhile)
  moreover have "hd (trim s) = last ?e" unfolding trim_def by (metis hd_rev)
  moreover have "last ?e = last (rev ?d)" using e by (rule last_dropWhile)
  moreover have "last (rev ?d) = hd ?d" by (metis last_rev)
  moreover have "\<not> is_space (hd ?d)" using d by (rule hd_dropWhile)
  ultimately show ?thesis by simp
qed

subsection \<open>The words of a text\<close>

lemma words_acc_dropWhile: "words_acc [] (dropWhile is_space cs) = words_acc [] cs"
  by (induction cs) auto

lemma words_acc_split_ws:
  "words_acc cur s = filter (\<lambda>w. w \<noteq> []) ((cur @ hd (split_ws s)) # tl (split_ws s))"
proof (induction s arbitrary: cur rule: split_ws.induct)
  case 1
  show ?case by simp
next
  case (2 c cs)
  show ?case
  proof (cases "is_space c")
    case True
    have "words_acc [] cs = words_acc [] (dropWhile is_space cs)"
      by (simp add: words_acc_dropWhile)
    also have "\<dots> = filter (\<lambda>w. w \<noteq> []) (split_ws (dropWhile is_space cs))"
      using "2.IH"(1) [OF True, of "[]"] split_ws_not_Nil [of "dropWhile is_space cs"]
      by (cases "split_ws (dropWhile is_space cs)") simp_all
    finally show ?thesis using True by simp
  next
    case False
    obtain h t where ht: "split_ws cs = h # t"
      using split_ws_not_Nil [of cs] by (cases "split_ws cs") auto
    show ?thesis using False "2.IH"(2) [OF False, of "cur @ [c]"] ht by simp
  qed
qed

lemma words_of_acc: "words_of s = words_acc [] s"
  using split_ws_not_Nil [of s]
  by (cases "split_ws s") (simp_all add: words_of_def words_acc_split_ws)

lemma words_acc_append_space:
  "is_space c \<Longrightarrow> words_acc cur (a @ c # b) = words_acc cur a @ words_acc [] b"
  by (induction a arbitrary: cur) auto

lemma words_of_append_space:
  "is_space c \<Longrightarrow> words_of (a @ c # b) = words_of a @ words_of b"
  by (simp add: words_of_acc words_acc_append_space)

lemma words_of_Nil: "words_of [] = []"
  by (simp add: words_of_def)

lemma words_acc_blank: "\<forall>c\<in>set s. is_space c \<Longrightarrow> words_acc [] s = []"
  by (induction s) auto

lemma words_of_blank: "trim s = [] \<Longrightarrow> words_of s = []"
  by (simp add: trim_Nil_iff words_of_acc words_acc_blank)

lemma words_acc_blank_cur:
  "\<forall>c\<in>set b. is_space c \<Longrightarrow> words_acc cur b = (if cur = [] then [] else [cur])"
  by (induction b arbitrary: cur) auto

lemma words_acc_trailing: "\<forall>c\<in>set b. is_space c \<Longrightarrow> words_acc cur (a @ b) = words_acc cur a"
proof (induction a arbitrary: cur)
  case Nil
  then show ?case by (simp add: words_acc_blank_cur)
next
  case (Cons x a)
  then show ?case by simp
qed

lemma words_of_trim: "words_of (trim s) = words_of s"
proof -
  let ?d = "dropWhile is_space s"
  have "?d = trim s @ rev (takeWhile is_space (rev ?d))"
    unfolding trim_def by (metis rev_append rev_rev_ident takeWhile_dropWhile_id)
  moreover have "\<forall>c\<in>set (rev (takeWhile is_space (rev ?d))). is_space c"
    by (auto dest: set_takeWhileD)
  ultimately have "words_acc [] ?d = words_acc [] (trim s)"
    using words_acc_trailing by metis
  then show ?thesis by (simp add: words_of_acc words_acc_dropWhile)
qed

text \<open>
  On a line that is not blank, the words that the rasterizer cuts with
  \<open>line.trim().split(/\s+/)\<close> are the words of the line.
\<close>

lemma split_ws_trim: "trim s \<noteq> [] \<Longrightarrow> split_ws (trim s) = words_of s"
proof -
  assume ne: "trim s \<noteq> []"
  with trim_ends have "[] \<notin> set (split_ws (trim s))" by (intro split_ws_no_empty) auto
  then have "words_of (trim s) = split_ws (trim s)"
    by (simp add: words_of_def filter_id_conv) metis
  then show ?thesis by (simp add: words_of_trim)
qed

lemma space_words_blank: "trim s = [] \<Longrightarrow> space_words s = []"
  unfolding space_words_def filter_empty_conv trim_Nil_iff
  using split_on_piece_subset by blast

lemma space_words_append_space:
  "space_words (a @ CHR '' '' # b) = space_words a @ space_words b"
  by (simp add: space_words_def split_on_append)

lemma space_words_Nil: "space_words [] = []"
  by (simp add: space_words_def trim_def)

lemma concat_map_filter_blank:
  assumes "\<And>l. trim l = [] \<Longrightarrow> f l = []"
  shows "concat (map f (filter (\<lambda>l. trim l \<noteq> []) ls)) = concat (map f ls)"
  using assms by (induction ls) auto

lemma is_space_newline: "is_space (CHR 0x0A)"
  by (simp add: is_space_def)

lemma is_space_space: "is_space (CHR '' '')"
  by (simp add: is_space_def)

section \<open>The greedy wrap\<close>

subsection \<open>Completeness\<close>

text \<open>
  Any reading \<open>f\<close> of a string as a list that is additive over a space, and empty on the
  empty string and on blank lines, gives the same list on the wrapped lines as on the lines
  that were wrapped.
\<close>

lemma wrap_word_additive:
  assumes "f [] = []" and "\<And>a b. f (a @ CHR '' '' # b) = f a @ f b"
  shows "concat (map f (fst (wrap_word m W (out, cur) w))) @ f (snd (wrap_word m W (out, cur) w))
         = concat (map f out) @ f cur @ f w"
  using assms by (simp add: wrap_word_def Let_def)

lemma foldl_wrap_word_additive:
  assumes "f [] = []" and "\<And>a b. f (a @ CHR '' '' # b) = f a @ f b"
  shows "concat (map f (fst (foldl (wrap_word m W) st ws))) @ f (snd (foldl (wrap_word m W) st ws))
         = concat (map f (fst st)) @ f (snd st) @ concat (map f ws)"
proof (induction ws arbitrary: st)
  case Nil
  show ?case by simp
next
  case (Cons w ws)
  show ?case
    using Cons.IH [of "wrap_word m W st w"] wrap_word_additive [OF assms, of m W "fst st" "snd st" w]
    by simp
qed

lemma wrap_line_additive:
  assumes "f [] = []" and "\<And>a b. f (a @ CHR '' '' # b) = f a @ f b"
    and "trim line = [] \<Longrightarrow> f line = []"
  shows "concat (map f (wrap_line m W out line)) = concat (map f out) @ f line"
proof (cases "trim line = []")
  case True
  then show ?thesis using assms(3) by (simp add: wrap_line_def)
next
  case False
  let ?st = "foldl (wrap_word m W) (out, []) (split_on CHR '' '' line)"
  have "concat (map f (fst ?st)) @ f (snd ?st) = concat (map f out) @ f line"
    using foldl_wrap_word_additive [OF assms(1,2), of m W "(out, [])" "split_on CHR '' '' line"]
      additive_split_on [of f "CHR '' ''" line, OF assms(1,2)] assms(1)
    by simp
  then show ?thesis using False assms(1)
    by (cases "snd ?st = []") (simp_all add: wrap_line_def Let_def)
qed

lemma wrap_additive_aux:
  assumes "f [] = []" and "\<And>a b. f (a @ CHR '' '' # b) = f a @ f b"
    and "\<And>line. trim line = [] \<Longrightarrow> f line = []"
  shows "concat (map f (foldl (wrap_line m W) out ls)) = concat (map f out) @ concat (map f ls)"
proof (induction ls arbitrary: out)
  case Nil
  show ?case by simp
next
  case (Cons l ls)
  show ?case
    using Cons.IH [of "wrap_line m W out l"] wrap_line_additive [of f l m W out, OF assms(1,2)] assms(3)
    by simp
qed

lemma wrap_additive:
  assumes "f [] = []" and "\<And>a b. f (a @ CHR '' '' # b) = f a @ f b"
    and "\<And>line. trim line = [] \<Longrightarrow> f line = []"
  shows "concat (map f (wrap m W ls)) = concat (map f ls)"
  using wrap_additive_aux [of f m W "[]" ls, OF assms] by (simp add: wrap_def)

lemma example_document:
  "document_lines ''ab cd ef\<newline>\<newline>abcdefgh x'' = [''ab cd ef'', ''abcdefgh x'']"
  by (simp add: eval_defs)

lemma example_wrap:
  "wrap (monospace 10) 50 [''ab cd ef'', ''abcdefgh x''] = [''ab cd'', ''ef'', ''abcdefgh'', ''x'']"
  by (simp add: eval_defs)

text \<open>
  Claim C4. For every document and every measure function, the words of the wrapped lines,
  taken line after line, are the words of the document in their order: none is dropped,
  repeated or moved. This holds for the words between runs of white space (white space
  collapsed), and also for the non-blank words that the line breaker itself cuts at single
  spaces.
\<close>

theorem wrap_completeness:
  "concat (map words_of (wrap m maxWidth (document_lines text))) = words_of text \<and>
   concat (map space_words (wrap m maxWidth (document_lines text)))
     = concat (map space_words (split_on CHR 0x0A text))"
proof
  have "concat (map words_of (wrap m maxWidth (document_lines text)))
        = concat (map words_of (document_lines text))"
    by (rule wrap_additive) (simp_all add: words_of_Nil words_of_append_space is_space_space words_of_blank)
  also have "\<dots> = concat (map words_of (split_on CHR 0x0A text))"
    unfolding document_lines_def by (rule concat_map_filter_blank) (rule words_of_blank)
  also have "\<dots> = words_of text"
    by (rule additive_split_on) (simp_all add: words_of_Nil words_of_append_space is_space_newline)
  finally show "concat (map words_of (wrap m maxWidth (document_lines text))) = words_of text" .
next
  have "concat (map space_words (wrap m maxWidth (document_lines text)))
        = concat (map space_words (document_lines text))"
    by (rule wrap_additive) (simp_all add: space_words_Nil space_words_append_space space_words_blank)
  also have "\<dots> = concat (map space_words (split_on CHR 0x0A text))"
    unfolding document_lines_def by (rule concat_map_filter_blank) (rule space_words_blank)
  finally show "concat (map space_words (wrap m maxWidth (document_lines text)))
     = concat (map space_words (split_on CHR 0x0A text))" .
qed

theorem wrap_completeness_witness:
  "concat (map words_of (wrap (monospace 10) 50 (document_lines ''ab cd ef\<newline>\<newline>abcdefgh x'')))
     = [''ab'', ''cd'', ''ef'', ''abcdefgh'', ''x''] \<and>
   words_of ''ab cd ef\<newline>\<newline>abcdefgh x'' = [''ab'', ''cd'', ''ef'', ''abcdefgh'', ''x'']"
proof -
  have "words_of ''ab cd ef\<newline>\<newline>abcdefgh x'' = [''ab'', ''cd'', ''ef'', ''abcdefgh'', ''x'']"
    by (simp add: words_of_def is_space_def)
  with wrap_completeness [of "monospace 10" 50 "''ab cd ef\<newline>\<newline>abcdefgh x''"]
  show ?thesis by simp
qed

subsection \<open>The width bound\<close>

lemma wrap_word_bound:
  assumes "\<forall>l\<in>set (fst st). m l \<le> W \<or> l \<in> S" and "snd st \<noteq> [] \<longrightarrow> m (snd st) \<le> W \<or> snd st \<in> S"
    and "w \<in> S"
  shows "(\<forall>l\<in>set (fst (wrap_word m W st w)). m l \<le> W \<or> l \<in> S) \<and>
         (snd (wrap_word m W st w) \<noteq> [] \<longrightarrow> m (snd (wrap_word m W st w)) \<le> W \<or> snd (wrap_word m W st w) \<in> S)"
  using assms by (auto simp: wrap_word_def Let_def)

lemma foldl_wrap_word_bound:
  assumes "\<forall>l\<in>set (fst st). m l \<le> W \<or> l \<in> S" and "snd st \<noteq> [] \<longrightarrow> m (snd st) \<le> W \<or> snd st \<in> S"
    and "set ws \<subseteq> S"
  shows "(\<forall>l\<in>set (fst (foldl (wrap_word m W) st ws)). m l \<le> W \<or> l \<in> S) \<and>
         (snd (foldl (wrap_word m W) st ws) \<noteq> [] \<longrightarrow>
            m (snd (foldl (wrap_word m W) st ws)) \<le> W \<or> snd (foldl (wrap_word m W) st ws) \<in> S)"
  using assms
proof (induction ws arbitrary: st)
  case Nil
  then show ?case by simp
next
  case (Cons w ws)
  have "w \<in> S" using Cons.prems(3) by simp
  from wrap_word_bound [OF Cons.prems(1,2) this]
  show ?case using Cons.IH [of "wrap_word m W st w"] Cons.prems(3) by simp
qed

lemma wrap_line_bound:
  assumes "\<forall>l\<in>set out. m l \<le> W \<or> l \<in> S" and "set (split_on CHR '' '' line) \<subseteq> S"
  shows "\<forall>l\<in>set (wrap_line m W out line). m l \<le> W \<or> l \<in> S"
  using foldl_wrap_word_bound [of "(out, [])" m W S "split_on CHR '' '' line"] assms
  by (auto simp: wrap_line_def Let_def)

lemma foldl_wrap_line_bound:
  assumes "\<forall>l\<in>set out. m l \<le> W \<or> l \<in> S" and "\<forall>line\<in>set ls. set (split_on CHR '' '' line) \<subseteq> S"
  shows "\<forall>l\<in>set (foldl (wrap_line m W) out ls). m l \<le> W \<or> l \<in> S"
  using assms
proof (induction ls arbitrary: out)
  case Nil
  then show ?case by simp
next
  case (Cons a ls)
  have "\<forall>l\<in>set (wrap_line m W out a). m l \<le> W \<or> l \<in> S"
    using Cons.prems by (intro wrap_line_bound) simp_all
  then show ?case using Cons.IH [of "wrap_line m W out a"] Cons.prems(2) by simp
qed

lemma wrap_single_word:
  assumes "trim w \<noteq> []" and "CHR '' '' \<notin> set w"
  shows "wrap m maxWidth [w] = [w]"
proof -
  have "w \<noteq> []" using assms(1) by (auto simp: trim_def)
  then show ?thesis
    using assms by (simp add: wrap_def wrap_line_def wrap_word_def split_on_no_sep Let_def)
qed

text \<open>
  Claim C3. For every document and every measure function, a line that the wrap emits
  measures at most the available width, unless it is a single word: then it has no space in
  it and is, character for character, one of the words that a line of the document splits
  into at single spaces, so an oversized word is emitted whole and alone. In particular a
  line that is one word is emitted as it is, whatever it measures.
\<close>

theorem wrap_width_bound:
  "(l \<in> set (wrap m maxWidth (document_lines text)) \<longrightarrow>
      m l \<le> maxWidth \<or>
      (CHR '' '' \<notin> set l \<and>
       (\<exists>line\<in>set (document_lines text). l \<in> set (split_on CHR '' '' line)))) \<and>
   (trim w \<noteq> '''' \<and> CHR '' '' \<notin> set w \<longrightarrow> wrap m maxWidth [w] = [w])"
proof (intro conjI impI)
  assume mem: "l \<in> set (wrap m maxWidth (document_lines text))"
  let ?S = "\<Union>line\<in>set (document_lines text). set (split_on CHR '' '' line)"
  have "\<forall>l\<in>set (foldl (wrap_line m maxWidth) [] (document_lines text)). m l \<le> maxWidth \<or> l \<in> ?S"
    by (rule foldl_wrap_line_bound) auto
  with mem have "m l \<le> maxWidth \<or> l \<in> ?S" by (simp add: wrap_def)
  then show "m l \<le> maxWidth \<or>
      (CHR '' '' \<notin> set l \<and>
       (\<exists>line\<in>set (document_lines text). l \<in> set (split_on CHR '' '' line)))"
    using split_on_piece_no_sep by fastforce
next
  assume "trim w \<noteq> '''' \<and> CHR '' '' \<notin> set w"
  then show "wrap m maxWidth [w] = [w]" by (simp add: wrap_single_word)
qed

theorem wrap_width_bound_witness:
  "''abcdefgh'' \<in> set (wrap (monospace 10) 50 (document_lines ''ab cd ef\<newline>\<newline>abcdefgh x'')) \<and>
   \<not> monospace 10 ''abcdefgh'' \<le> 50 \<and>
   CHR '' '' \<notin> set ''abcdefgh'' \<and>
   (\<exists>line\<in>set (document_lines ''ab cd ef\<newline>\<newline>abcdefgh x'').
      ''abcdefgh'' \<in> set (split_on CHR '' '' line)) \<and>
   wrap (monospace 10) 50 [''abcdefgh''] = [''abcdefgh'']"
proof -
  have mem: "''abcdefgh'' \<in> set (wrap (monospace 10) 50 (document_lines ''ab cd ef\<newline>\<newline>abcdefgh x''))"
    by (simp add: example_document example_wrap)
  have big: "\<not> monospace 10 ''abcdefgh'' \<le> 50"
    by (simp add: monospace_def)
  have one: "trim ''abcdefgh'' \<noteq> '''' \<and> CHR '' '' \<notin> set ''abcdefgh''"
    by (simp add: trim_def is_space_def)
  from wrap_width_bound [of "''abcdefgh''" "monospace 10" 50 "''ab cd ef\<newline>\<newline>abcdefgh x''" "''abcdefgh''"]
    big mem one
  show ?thesis by blast
qed

section \<open>Placing the lines\<close>

lemma fills_append: "fills (a @ b) = fills a @ fills b"
  by (induction a rule: fills.induct) simp_all

lemma fills_concat: "fills (concat xs) = concat (map fills xs)"
  by (induction xs) (simp_all add: fills_append)

lemma fills_underline_stroke: "fills (underline_stroke style x y w) = []"
  by (simp add: underline_stroke_def)

lemma fills_justify_words_Cons:
  "fills (justify_words rn m style sp y x (w # rest))
   = (w, x) # fills (justify_words rn m style sp y
                       (if rest \<noteq> [] then rn (x + rn (m w + sp)) else x) rest)"
  by (simp add: fills_append fills_underline_stroke)

lemma fills_justify_words_fst: "map fst (fills (justify_words rn m style sp y x ws)) = ws"
  by (induction ws arbitrary: x) (simp_all add: fills_justify_words_Cons del: justify_words.simps(2))

lemma fills_justify_words_length: "length (fills (justify_words rn m style sp y x ws)) = length ws"
  using fills_justify_words_fst [of rn m style sp y x ws] by (metis length_map)

lemma fills_justify_words_first:
  "ws \<noteq> [] \<Longrightarrow> snd (fills (justify_words rn m style sp y x ws) ! 0) = x"
  by (cases ws) (simp_all add: fills_justify_words_Cons del: justify_words.simps(2))

lemma fills_justify_words_step:
  "k + 1 < length ws \<Longrightarrow>
   snd (fills (justify_words rn m style sp y x ws) ! (k + 1))
   = rn (snd (fills (justify_words rn m style sp y x ws) ! k) + rn (m (ws ! k) + sp))"
proof (induction ws arbitrary: x k)
  case Nil
  then show ?case by simp
next
  case (Cons w rest)
  then have rest: "rest \<noteq> []" by auto
  show ?case
  proof (cases k)
    case 0
    then show ?thesis
      using rest fills_justify_words_first [OF rest, of rn m style sp y "rn (x + rn (m w + sp))"]
      by (simp add: fills_justify_words_Cons del: justify_words.simps(2))
  next
    case (Suc j)
    then have "j + 1 < length rest" using Cons.prems by simp
    from Cons.IH [OF this, of "rn (x + rn (m w + sp))"] show ?thesis
      using rest Suc by (simp add: fills_justify_words_Cons del: justify_words.simps(2))
  qed
qed

lemma foldl_sum_measure: "foldl (\<lambda>sum word. sum + m word) a ws = a + sum_list (map m ws)"
  for a :: real
  by (induction ws arbitrary: a) simp_all

lemma spaceWidth_exact:
  "spaceWidth (\<lambda>x. x) m ws = (availableWidth - sum_list (map m ws)) / (real (length ws) - 1)"
  by (simp add: spaceWidth_def totalSpaceWidth_def totalTextWidth_def foldl_sum_measure)

lemma justify_guard:
  "trim line \<noteq> [] \<and> length (split_ws (trim line)) > 1 \<longleftrightarrow> length (words_of line) > 1"
proof (cases "trim line = []")
  case True
  then show ?thesis by (simp add: words_of_blank)
next
  case False
  then show ?thesis by (simp add: split_ws_trim)
qed

text \<open>
  With \<open>align = justify\<close> the two tests of the loop body come down to one: the line is not
  the last one and has more than one word.
\<close>

lemma render_line_justify:
  assumes "align style = Justify"
  shows "render_line rn m style count index line =
         (if index + 1 < count \<and> length (words_of line) > 1
          then justify_words rn m style (spaceWidth rn m (words_of line))
                 (padding + real index * lineHeight style) padding (words_of line)
          else FillText line padding (padding + real index * lineHeight style)
                 # underline_stroke style padding (padding + real index * lineHeight style) (m line))"
proof (cases "trim line = []")
  case True
  then show ?thesis using assms by (simp add: render_line_def Let_def words_of_blank)
next
  case False
  have "int index < int count - 1 \<longleftrightarrow> index + 1 < count" by auto
  then show ?thesis
    using assms False justify_guard [of line]
    by (simp add: render_line_def Let_def split_ws_trim)
qed

lemma render_line_left:
  "render_line rn m (style\<lparr>align := Left\<rparr>) count index line
   = FillText line padding (padding + real index * lineHeight style)
       # underline_stroke style padding (padding + real index * lineHeight style) (m line)"
  by (simp add: render_line_def Let_def lineHeight_def underline_stroke_def)

lemma render_line_right:
  "render_line rn m (style\<lparr>align := Right\<rparr>) count index line
   = FillText line (fixedWidth - m line - padding) (padding + real index * lineHeight style)
       # underline_stroke style (fixedWidth - m line - padding)
           (padding + real index * lineHeight style) (m line)"
  by (simp add: render_line_def Let_def lineHeight_def underline_stroke_def)

lemma length_render_passes: "length (render_passes rn m style ls) = length ls"
  by (simp add: render_passes_def)

lemma nth_render_passes:
  "i < length ls \<Longrightarrow> render_passes rn m style ls ! i = render_line rn m style (length ls) i (ls ! i)"
  by (simp add: render_passes_def)

lemma fills_pass_plain:
  assumes "align style = Justify" and "i < length ls"
    and "i + 1 = length ls \<or> length (words_of (ls ! i)) \<le> 1"
  shows "fills (render_passes rn m style ls ! i) = [(ls ! i, padding)]"
  using assms by (auto simp: nth_render_passes render_line_justify fills_underline_stroke)

lemma pass_justified:
  assumes "align style = Justify" and "i + 1 < length ls" and "length (words_of (ls ! i)) > 1"
  shows "render_passes rn m style ls ! i
         = justify_words rn m style (spaceWidth rn m (words_of (ls ! i)))
             (padding + real i * lineHeight style) padding (words_of (ls ! i))"
  using assms by (simp add: nth_render_passes render_line_justify)

text \<open>
  Claim C2, as the specification states it: the x offsets of a line under \<open>left\<close> and under
  \<open>right\<close> sum to the fixed width minus the measure of the line minus twice the padding.
  It fails on the line \<open>a\<close>, 10 wide: the offsets are 1 and 589 and sum to 590, not to 588.
\<close>

theorem left_right_sum_counterexample:
  "fills (render_line (\<lambda>x. x) (monospace 10) (initial_style\<lparr>align := Left\<rparr>) 1 0 ''a'') = [(''a'', 1)] \<and>
   fills (render_line (\<lambda>x. x) (monospace 10) (initial_style\<lparr>align := Right\<rparr>) 1 0 ''a'') = [(''a'', 589)] \<and>
   (1::real) + 589 \<noteq> fixedWidth - monospace 10 ''a'' - 2 * padding"
  by (simp add: render_line_left render_line_right fills_underline_stroke padding_def fixedWidth_def
      monospace_def)

text \<open>
  Claim C2, amended: for every line, the x offset at which it is drawn under \<open>left\<close> and
  the one under \<open>right\<close> sum to the fixed width minus the measure of the line, the two
  paddings cancelling.
\<close>

theorem left_right_offsets:
  assumes "fills (render_line rn m (style\<lparr>align := Left\<rparr>) count index line) = [(line, xl)]"
    and "fills (render_line rn m (style\<lparr>align := Right\<rparr>) count index line) = [(line, xr)]"
  shows "xl + xr = fixedWidth - m line"
  using assms by (simp add: render_line_left render_line_right fills_underline_stroke)

theorem left_right_offsets_witness:
  "fills (render_line (\<lambda>x. x) (monospace 10) (initial_style\<lparr>align := Left\<rparr>) 1 0 ''a'') = [(''a'', 1)] \<and>
   fills (render_line (\<lambda>x. x) (monospace 10) (initial_style\<lparr>align := Right\<rparr>) 1 0 ''a'') = [(''a'', 589)] \<and>
   (1::real) + 589 = fixedWidth - monospace 10 ''a''"
proof -
  have l: "fills (render_line (\<lambda>x. x) (monospace 10) (initial_style\<lparr>align := Left\<rparr>) 1 0 ''a'') = [(''a'', 1)]"
    by (simp add: render_line_left fills_underline_stroke padding_def)
  have r: "fills (render_line (\<lambda>x. x) (monospace 10) (initial_style\<lparr>align := Right\<rparr>) 1 0 ''a'') = [(''a'', 589)]"
    by (simp add: render_line_right fills_underline_stroke padding_def fixedWidth_def monospace_def)
  from left_right_offsets [OF l r] l r show ?thesis by simp
qed

section \<open>Rounding in the justified placement\<close>

text \<open>
  The rounding is taken to err by at most \<open>e\<close> on every number of magnitude up to \<open>B\<close>;
  for doubles and \<open>B\<close> a power of two, \<open>e\<close> is \<open>B / 2^54\<close>. The running sum of the widths
  then errs by at most \<open>e\<close> for each word, and the position of the last word by at most
  \<open>2 * e\<close> for each gap before it, as long as the numbers on the way stay within \<open>B\<close>.
\<close>

lemma rounded_sum_error:
  assumes rn: "\<forall>x. \<bar>x\<bar> \<le> B \<longrightarrow> \<bar>rn x - x\<bar> \<le> e"
    and "\<bar>a - a0\<bar> \<le> d"
    and "\<bar>a0\<bar> + sum_list (map (\<lambda>w. \<bar>m w\<bar>) ws) + d + real (length ws) * e \<le> B"
    and "0 \<le> e"
  shows "\<bar>foldl (\<lambda>sum word. rn (sum + m word)) a ws - (a0 + sum_list (map m ws))\<bar>
         \<le> d + real (length ws) * e"
  using assms(2,3)
proof (induction ws arbitrary: a a0 d)
  case Nil
  then show ?case by simp
next
  case (Cons w ws)
  define S where "S = sum_list (map (\<lambda>w. \<bar>m w\<bar>) ws)"
  define L where "L = real (length ws) * e"
  have nn: "0 \<le> S" unfolding S_def by (rule sum_list_nonneg) auto
  have le: "0 \<le> L" unfolding L_def using assms(4) by simp
  have B: "\<bar>a0\<bar> + (\<bar>m w\<bar> + S) + d + (e + L) \<le> B"
    using Cons.prems(2) unfolding S_def L_def by (simp add: algebra_simps)
  have mag: "\<bar>a + m w\<bar> \<le> B"
    using Cons.prems(1) B nn le assms(4) by linarith
  then have r: "\<bar>rn (a + m w) - (a + m w)\<bar> \<le> e" using rn by blast
  have step: "\<bar>rn (a + m w) - (a0 + m w)\<bar> \<le> d + e"
    using r Cons.prems(1) by linarith
  have cond: "\<bar>a0 + m w\<bar> + sum_list (map (\<lambda>w. \<bar>m w\<bar>) ws) + (d + e) + real (length ws) * e \<le> B"
    using B unfolding S_def L_def by linarith
  have "\<bar>foldl (\<lambda>sum word. rn (sum + m word)) (rn (a + m w)) ws
          - (a0 + m w + sum_list (map m ws))\<bar> \<le> d + e + L"
    using Cons.IH [OF step cond] unfolding L_def .
  then show ?case unfolding L_def by (simp add: algebra_simps)
qed

lemma last_position_error:
  assumes rn: "\<forall>x. \<bar>x\<bar> \<le> B \<longrightarrow> \<bar>rn x - x\<bar> \<le> e" and e: "0 \<le> e"
    and "ws \<noteq> []" and "\<bar>x - x0\<bar> \<le> d"
    and "\<bar>x0\<bar> + sum_list (map (\<lambda>w. \<bar>m w\<bar>) ws) + (real (length ws) - 1) * \<bar>sp\<bar> + d
           + 2 * (real (length ws) - 1) * e \<le> B"
  shows "\<bar>snd (last (fills (justify_words rn m style sp y x ws)))
           - (x0 + sum_list (map (\<lambda>w. m w + sp) (butlast ws)))\<bar>
         \<le> d + 2 * (real (length ws) - 1) * e"
  using assms(3-5)
proof (induction ws arbitrary: x x0 d)
  case Nil
  then show ?case by simp
next
  case (Cons w rest)
  show ?case
  proof (cases "rest = []")
    case True
    then show ?thesis using Cons.prems(2) by (simp add: fills_append fills_underline_stroke)
  next
    case False
    define S where "S = sum_list (map (\<lambda>w. \<bar>m w\<bar>) rest)"
    define n where "n = real (length rest) - 1"
    have n0: "0 \<le> n" unfolding n_def using False by (cases rest) simp_all
    have nn: "0 \<le> S" unfolding S_def by (rule sum_list_nonneg) auto
    have ns: "0 \<le> n * \<bar>sp\<bar>" and ne: "0 \<le> n * e" using n0 e by simp_all
    have len: "real (length (w # rest)) - 1 = n + 1" unfolding n_def by simp
    have Q: "\<bar>x0\<bar> + (\<bar>m w\<bar> + S) + (n * \<bar>sp\<bar> + \<bar>sp\<bar>) + d + (2 * (n * e) + 2 * e) \<le> B"
      using Cons.prems(3) unfolding len S_def by (simp add: algebra_simps)
    have "\<bar>m w + sp\<bar> \<le> B" using Q nn ns ne e Cons.prems(2) by linarith
    then have r1: "\<bar>rn (m w + sp) - (m w + sp)\<bar> \<le> e" using rn by blast
    have "\<bar>x + rn (m w + sp)\<bar> \<le> B" using Q nn ns ne e Cons.prems(2) r1 by linarith
    then have r2: "\<bar>rn (x + rn (m w + sp)) - (x + rn (m w + sp))\<bar> \<le> e" using rn by blast
    have step: "\<bar>rn (x + rn (m w + sp)) - (x0 + (m w + sp))\<bar> \<le> d + 2 * e"
      using r1 r2 Cons.prems(2) by linarith
    have cond: "\<bar>x0 + (m w + sp)\<bar> + sum_list (map (\<lambda>w. \<bar>m w\<bar>) rest)
                  + (real (length rest) - 1) * \<bar>sp\<bar> + (d + 2 * e)
                  + 2 * (real (length rest) - 1) * e \<le> B"
      using Q unfolding S_def n_def by (simp add: algebra_simps)
    have ne': "fills (justify_words rn m style sp y (rn (x + rn (m w + sp))) rest) \<noteq> []"
      using fills_justify_words_length [of rn m style sp y "rn (x + rn (m w + sp))" rest] False
      by auto
    have "last (fills (justify_words rn m style sp y x (w # rest)))
          = last (fills (justify_words rn m style sp y (rn (x + rn (m w + sp))) rest))"
      using False ne' by (simp add: fills_justify_words_Cons del: justify_words.simps(2))
    moreover have "\<bar>snd (last (fills (justify_words rn m style sp y (rn (x + rn (m w + sp))) rest)))
             - (x0 + (m w + sp) + sum_list (map (\<lambda>w. m w + sp) (butlast rest)))\<bar>
           \<le> d + 2 * e + 2 * n * e"
      using Cons.IH [OF False step cond] unfolding n_def by simp
    moreover have "sum_list (map (\<lambda>w. m w + sp) (butlast (w # rest)))
                   = (m w + sp) + sum_list (map (\<lambda>w. m w + sp) (butlast rest))"
      using False by simp
    ultimately show ?thesis unfolding len by (simp add: algebra_simps)
  qed
qed

lemma sum_list_abs_le: "\<bar>sum_list (map m ws)\<bar> \<le> sum_list (map (\<lambda>w. \<bar>m w\<bar>) ws)"
  for m :: "'a \<Rightarrow> real"
  by (induction ws) auto

lemma sum_list_butlast_last:
  "ws \<noteq> [] \<Longrightarrow> sum_list (map m ws) = sum_list (map m (butlast ws)) + m (last ws)"
  for m :: "'a \<Rightarrow> real"
  by (induction ws) simp_all

lemma sum_list_add_const:
  "sum_list (map (\<lambda>w. m w + c) ws) = sum_list (map m ws) + real (length ws) * c"
  for m :: "'a \<Rightarrow> real"
  by (induction ws) (simp_all add: algebra_simps)

text \<open>
  On a line of \<open>n\<close> words the right edge of the last word is within \<open>(4 * n - 2) * e\<close> of
  the available width plus the padding: \<open>n\<close> roundings in the sum of the widths, one in the
  slack, one in its division, which counts for each of the \<open>n - 1\<close> gaps, and two at each
  advance of the position.
\<close>

lemma justified_edge_error:
  assumes rn: "\<forall>x. \<bar>x\<bar> \<le> B \<longrightarrow> \<bar>rn x - x\<bar> \<le> e" and e: "0 \<le> e"
    and len: "length ws > 1"
    and mag: "padding + availableWidth + 2 * sum_list (map (\<lambda>w. \<bar>m w\<bar>) ws)
                + (4 * real (length ws) - 2) * e \<le> B"
  shows "\<bar>snd (last (fills (justify_words rn m style (spaceWidth rn m ws) y padding ws)))
            + m (last ws) - (availableWidth + padding)\<bar>
         \<le> (4 * real (length ws) - 2) * e"
proof -
  define n where "n = real (length ws)"
  define N1 where "N1 = n - 1"
  define T where "T = sum_list (map m ws)"
  define Ta where "Ta = sum_list (map (\<lambda>w. \<bar>m w\<bar>) ws)"
  define Th where "Th = totalTextWidth rn m ws"
  define Sh where "Sh = totalSpaceWidth rn m ws"
  define sh where "sh = spaceWidth rn m ws"
  define A where "A = availableWidth"
  define ne where "ne = n * e"
  have ws: "ws \<noteq> []" using len by auto
  have n2: "2 \<le> n" unfolding n_def using len by simp
  have N1: "1 \<le> N1" unfolding N1_def using n2 by simp
  have A0: "0 \<le> A" "padding = 1" unfolding A_def by (simp_all add: availableWidth_def fixedWidth_def padding_def)
  have Ta0: "0 \<le> Ta" unfolding Ta_def by (rule sum_list_nonneg) auto
  have TTa: "\<bar>T\<bar> \<le> Ta" unfolding T_def Ta_def by (rule sum_list_abs_le)
  have ne0: "0 \<le> ne" unfolding ne_def using n2 e by simp
  have ne2: "2 * e \<le> ne" unfolding ne_def using n2 e by (simp add: mult_right_mono)
  have mag': "1 + A + 2 * Ta + (4 * ne - 2 * e) \<le> B"
    using mag A0(2) unfolding A_def Ta_def n_def ne_def by (simp add: algebra_simps)
  \<comment> \<open>the sum of the widths\<close>
  have "\<bar>foldl (\<lambda>sum word. rn (sum + m word)) 0 ws - (0 + sum_list (map m ws))\<bar>
        \<le> 0 + real (length ws) * e"
  proof (rule rounded_sum_error [OF rn _ _ e])
    show "\<bar>(0::real) - 0\<bar> \<le> 0" by simp
    show "\<bar>0::real\<bar> + sum_list (map (\<lambda>w. \<bar>m w\<bar>) ws) + 0 + real (length ws) * e \<le> B"
      using mag' A0 Ta0 ne0 ne2 e unfolding Ta_def ne_def n_def by simp
  qed
  then have Th: "\<bar>Th - T\<bar> \<le> ne"
    unfolding Th_def T_def totalTextWidth_def ne_def n_def by simp
  \<comment> \<open>the slack\<close>
  have "\<bar>A - Th\<bar> \<le> B" using Th TTa mag' A0 Ta0 ne0 ne2 e by linarith
  then have "\<bar>rn (A - Th) - (A - Th)\<bar> \<le> e" using rn by blast
  then have Sh1: "\<bar>Sh - (A - Th)\<bar> \<le> e"
    unfolding Sh_def totalSpaceWidth_def A_def Th_def .
  have Sh: "\<bar>Sh - (A - T)\<bar> \<le> ne + e" using Sh1 Th by linarith
  have Shm: "\<bar>Sh\<bar> \<le> A + Ta + ne + e" using Sh TTa A0 by linarith
  \<comment> \<open>its share for a gap\<close>
  have "\<bar>Sh / N1\<bar> = \<bar>Sh\<bar> / N1" using N1 by simp
  also have "\<dots> \<le> \<bar>Sh\<bar>"
  proof -
    have "\<bar>Sh\<bar> * 1 \<le> \<bar>Sh\<bar> * N1" using N1 by (intro mult_left_mono) simp_all
    then show ?thesis using N1 by (simp add: divide_le_eq)
  qed
  finally have "\<bar>Sh / N1\<bar> \<le> B" using Shm mag' A0 Ta0 ne0 ne2 e by linarith
  then have "\<bar>rn (Sh / N1) - Sh / N1\<bar> \<le> e" using rn by blast
  then have sh1: "\<bar>sh - Sh / N1\<bar> \<le> e"
    unfolding sh_def spaceWidth_def Sh_def N1_def n_def .
  have "N1 * sh - Sh = N1 * (sh - Sh / N1)" using N1 by (simp add: algebra_simps)
  then have "\<bar>N1 * sh - Sh\<bar> = N1 * \<bar>sh - Sh / N1\<bar>" using N1 by (simp add: abs_mult)
  also have "\<dots> \<le> N1 * e" using sh1 N1 by (simp add: mult_left_mono)
  finally have share: "\<bar>N1 * sh - Sh\<bar> \<le> ne - e"
    unfolding N1_def ne_def by (simp add: algebra_simps)
  have "N1 * \<bar>sh\<bar> = \<bar>N1 * sh\<bar>" using N1 by (simp add: abs_mult)
  then have shm: "N1 * \<bar>sh\<bar> \<le> \<bar>Sh\<bar> + ne - e" using share by linarith
  \<comment> \<open>the position of the last word\<close>
  have N1e: "N1 * e = ne - e" unfolding N1_def ne_def by (simp add: algebra_simps)
  have "\<bar>snd (last (fills (justify_words rn m style sh y padding ws)))
          - (padding + sum_list (map (\<lambda>w. m w + sh) (butlast ws)))\<bar>
        \<le> 0 + 2 * (real (length ws) - 1) * e"
  proof (rule last_position_error [OF rn e ws])
    show "\<bar>padding - padding\<bar> \<le> 0" by simp
    have "\<bar>padding\<bar> + Ta + N1 * \<bar>sh\<bar> + 0 + 2 * (N1 * e) \<le> B"
      using shm Shm mag' A0 N1e by linarith
    then show "\<bar>padding\<bar> + sum_list (map (\<lambda>w. \<bar>m w\<bar>) ws) + (real (length ws) - 1) * \<bar>sh\<bar> + 0
                 + 2 * (real (length ws) - 1) * e \<le> B"
      unfolding Ta_def N1_def n_def by (simp add: algebra_simps)
  qed
  moreover have "sum_list (map (\<lambda>w. m w + sh) (butlast ws))
                 = sum_list (map m (butlast ws)) + N1 * sh"
  proof -
    have "real (length (butlast ws)) = real (length ws) - 1"
      using ws by (cases ws) simp_all
    then show ?thesis unfolding N1_def n_def by (simp add: sum_list_add_const)
  qed
  moreover have "T = sum_list (map m (butlast ws)) + m (last ws)"
    unfolding T_def using ws by (rule sum_list_butlast_last)
  moreover have "2 * (real (length ws) - 1) * e = 2 * (ne - e)"
    unfolding ne_def n_def by (simp add: algebra_simps)
  ultimately have pos: "\<bar>snd (last (fills (justify_words rn m style sh y padding ws)))
          + m (last ws) - (padding + T + N1 * sh)\<bar> \<le> 2 * (ne - e)"
    by simp
  define X where "X = snd (last (fills (justify_words rn m style sh y padding ws))) + m (last ws)"
  define P where "P = N1 * sh"
  have "\<bar>X - (padding + T + P)\<bar> \<le> 2 * (ne - e)" "\<bar>P - Sh\<bar> \<le> ne - e"
    using pos share unfolding X_def P_def by simp_all
  then have "\<bar>X - (A + padding)\<bar> \<le> 4 * ne - 2 * e"
    using Sh by (simp add: abs_le_iff)
  then have "\<bar>snd (last (fills (justify_words rn m style sh y padding ws)))
          + m (last ws) - (A + padding)\<bar> \<le> 4 * ne - 2 * e"
    unfolding X_def .
  then show ?thesis
    unfolding sh_def A_def ne_def n_def by (simp add: algebra_simps)
qed

lemma nearest_1024th_error: "\<bar>nearest_1024th x - x\<bar> \<le> 1 / 2048"
proof -
  define k where "k = \<lfloor>x * 1024 + 1 / 2\<rfloor>"
  have "real_of_int k \<le> x * 1024 + 1 / 2" "x * 1024 + 1 / 2 < real_of_int k + 1"
    unfolding k_def by linarith+
  then have "\<bar>real_of_int k / 1024 - x\<bar> \<le> 1 / 2048"
    unfolding abs_le_iff by (simp add: field_simps)
  then show ?thesis unfolding nearest_1024th_def k_def .
qed

section \<open>The export as a whole\<close>

lemma export_empty:
  assumes "document_lines text = []"
  shows "downloadAsPNG rn h (Some c) text style title
         = (Some (c\<lparr>ctx_font := font_string style\<rparr>), None)"
  using assms by (simp add: downloadAsPNG_def)

lemma export_nonempty:
  assumes "document_lines text \<noteq> []"
  shows "downloadAsPNG rn h (Some c) text style title =
    (let wrappedLines = wrap (measureText h (font_string style)) availableWidth (document_lines text);
         th = textHeight style wrappedLines;
         c' = \<lparr>cv_width = canvas_dimension 300 (rn (fixedWidth * deviceScale h)),
               cv_height = canvas_dimension 150 (rn ((th + padding * 2) * deviceScale h)),
               style_width = fixedWidth, style_height = th + padding * 2,
               ctx_font = font_string style, ctx_fillStyle = color style,
               ctx_textBaseline = ''top'', ctx_scale = deviceScale h,
               ctx_ops = ClearRect 0 0 fixedWidth (th + padding * 2)
                           # render_lines rn (measureText h (font_string style)) style wrappedLines\<rparr>
     in (Some c', map_option (\<lambda>blob. (file_name title, blob)) (toBlob h c')))"
  using assms
  by (cases c) (simp add: downloadAsPNG_def Let_def set_width_def set_height_def reset_context_def draw_def)

lemma export_fills:
  assumes "document_lines text \<noteq> []"
  shows "\<exists>c' file. downloadAsPNG rn h (Some c) text style title = (Some c', file) \<and>
           fills (ctx_ops c')
           = concat (map fills (render_passes rn (measureText h (font_string style)) style
               (wrap (measureText h (font_string style)) availableWidth (document_lines text))))"
  using assms by (simp add: export_nonempty Let_def render_lines_def fills_concat)

lemma canvas_dimension_floor:
  assumes "0 \<le> v" and "v < 2147483648"
  shows "int (canvas_dimension d v) = \<lfloor>v\<rfloor>"
proof -
  have f: "0 \<le> \<lfloor>v\<rfloor>" "\<lfloor>v\<rfloor> < 2147483648" using assms by linarith+
  then have "\<lfloor>v\<rfloor> mod 4294967296 = \<lfloor>v\<rfloor>" by simp
  then have u: "unsigned_long v = nat \<lfloor>v\<rfloor>" using assms by (simp add: unsigned_long_def)
  then have "unsigned_long v \<le> 2147483647" using f by linarith
  then show ?thesis using u f by (simp add: canvas_dimension_def)
qed

lemma ex2_document: "document_lines ''ab b c d\<newline>abc'' = [''ab b c d'', ''abc'']"
  by (simp add: eval_defs)

lemma ex2_wrap:
  "wrap (monospace 10) availableWidth [''ab b c d'', ''abc''] = [''ab b c d'', ''abc'']"
  by (simp add: eval_defs availableWidth_def fixedWidth_def padding_def)

lemma ex2_words: "words_of ''ab b c d'' = [''ab'', ''b'', ''c'', ''d'']"
  by (simp add: words_of_def is_space_def)

lemma ex2_words2: "words_of ''abc'' = [''abc'']"
  by (simp add: words_of_def is_space_def)

lemma ex2_space: "spaceWidth nearest_1024th (monospace 10) [''ab'', ''b'', ''c'', ''d''] = 187051 / 1024"
  by (simp add: spaceWidth_def totalSpaceWidth_def totalTextWidth_def nearest_1024th_def
      monospace_def availableWidth_def fixedWidth_def padding_def)

lemma ex2_passes:
  "map fills (render_passes nearest_1024th (monospace 10) (initial_style\<lparr>align := Justify\<rparr>)
                [''ab b c d'', ''abc''])
   = [[(''ab'', 1), (''b'', 208555 / 1024), (''c'', 405846 / 1024), (''d'', 603137 / 1024)],
      [(''abc'', 1)]]"
  by (simp add: render_passes_def render_line_justify ex2_words ex2_words2 ex2_space fills_append
        fills_underline_stroke)
     (simp add: nearest_1024th_def monospace_def padding_def)

lemma ex3_document:
  "document_lines ''ab b c d\<newline>xyz\<newline>abc'' = [''ab b c d'', ''xyz'', ''abc'']"
  by (simp add: eval_defs)

lemma ex3_wrap:
  "wrap (monospace 10) availableWidth [''ab b c d'', ''xyz'', ''abc''] = [''ab b c d'', ''xyz'', ''abc'']"
  by (simp add: eval_defs availableWidth_def fixedWidth_def padding_def)

lemma ex3_words: "words_of ''xyz'' = [''xyz'']"
  by (simp add: words_of_def is_space_def)

lemma ex3_passes:
  "map fills (render_passes nearest_1024th (monospace 10) (initial_style\<lparr>align := Justify\<rparr>)
                [''ab b c d'', ''xyz'', ''abc''])
   = [[(''ab'', 1), (''b'', 208555 / 1024), (''c'', 405846 / 1024), (''d'', 603137 / 1024)],
      [(''xyz'', 1)], [(''abc'', 1)]]"
  by (simp add: render_passes_def render_line_justify ex2_words ex2_words2 ex3_words ex2_space
        fills_append fills_underline_stroke)
     (simp add: nearest_1024th_def monospace_def padding_def)

lemma blank_document: "document_lines ''\<newline> \<newline>\<newline>'' = []"
  by (simp add: eval_defs)

lemma hello_document: "document_lines ''hello world'' = [''hello world'']"
  by (simp add: eval_defs)

lemma two_lines_document: "document_lines ''a\<newline>b'' = [''a'', ''b'']"
  by (simp add: eval_defs)

lemma two_lines_wrap: "wrap (monospace 10) availableWidth [''a'', ''b''] = [''a'', ''b'']"
  by (simp add: eval_defs availableWidth_def fixedWidth_def padding_def)

text \<open>
  Claim C1, as the specification states it: on a justified line of several words that is not
  the last line, the x position of the last word plus its measured width is the available
  width minus the padding. It fails on the first of the two lines \<open>a b\<close> and \<open>c\<close>: the last
  word is placed at 589 and is 10 wide, which makes 599, two away from the available width
  minus the padding, 597; every number on the way is a whole number, so no rounding is
  involved.
\<close>

theorem justify_full_span_counterexample:
  "fills (render_passes (\<lambda>x. x) (monospace 10) (initial_style\<lparr>align := Justify\<rparr>) [''a b'', ''c''] ! 0)
     = [(''a'', 1), (''b'', 589)] \<and>
   \<bar>589 + monospace 10 ''b'' - (availableWidth - padding)\<bar> = 2"
proof -
  have w: "words_of ''a b'' = [''a'', ''b'']" by (simp add: words_of_def is_space_def)
  show ?thesis
    by (simp add: pass_justified w spaceWidth_exact fills_append fills_underline_stroke)
       (simp add: monospace_def availableWidth_def fixedWidth_def padding_def)
qed

text \<open>
  Claim C1, amended: in an export with \<open>align = justify\<close>, on every wrapped line of several
  words that is not the last line of the document, the x position at which the last word is
  drawn plus its measured width equals the available width plus the padding, which is the
  fixed width minus the padding, 599, within rounding tolerance: when the rounding errs by
  at most \<open>e\<close> on the numbers of the line, the two differ by at most \<open>(4 * n - 2) * e\<close> for
  a line of \<open>n\<close> words.
\<close>

theorem justify_last_word_edge:
  assumes "document_lines text \<noteq> []" and "align style = Justify"
    and "m = measureText h (font_string style)"
    and "W = wrap m availableWidth (document_lines text)"
    and "i + 1 < length W" and "length (words_of (W ! i)) > 1"
    and "\<forall>x. \<bar>x\<bar> \<le> B \<longrightarrow> \<bar>rn x - x\<bar> \<le> e" and "0 \<le> e"
    and "padding + availableWidth + 2 * sum_list (map (\<lambda>w. \<bar>m w\<bar>) (words_of (W ! i)))
           + (4 * real (length (words_of (W ! i))) - 2) * e \<le> B"
  shows "\<exists>c' file. downloadAsPNG rn h (Some c) text style title = (Some c', file) \<and>
           fills (ctx_ops c') = concat (map fills (render_passes rn m style W)) \<and>
           length (render_passes rn m style W) = length W \<and>
           fills (render_passes rn m style W ! i) \<noteq> [] \<and>
           fst (last (fills (render_passes rn m style W ! i))) = last (words_of (W ! i)) \<and>
           \<bar>snd (last (fills (render_passes rn m style W ! i))) + m (last (words_of (W ! i)))
              - (availableWidth + padding)\<bar>
             \<le> (4 * real (length (words_of (W ! i))) - 2) * e"
proof -
  let ?ws = "words_of (W ! i)"
  let ?J = "justify_words rn m style (spaceWidth rn m ?ws) (padding + real i * lineHeight style)
              padding ?ws"
  have p: "render_passes rn m style W ! i = ?J"
    using assms(2,5,6) by (rule pass_justified)
  have ne: "?ws \<noteq> []" using assms(6) by auto
  have len: "length (fills ?J) = length ?ws" by (rule fills_justify_words_length)
  then have f: "fills ?J \<noteq> []" using ne by auto
  have "map fst (fills ?J) = ?ws" by (rule fills_justify_words_fst)
  then have l: "fst (last (fills ?J)) = last ?ws" using f by (metis last_map)
  have b: "\<bar>snd (last (fills ?J)) + m (last ?ws) - (availableWidth + padding)\<bar>
           \<le> (4 * real (length ?ws) - 2) * e"
    using assms(7,8,6,9) by (rule justified_edge_error)
  from export_fills [OF assms(1), of rn h c style title]
  show ?thesis unfolding assms(3,4) [symmetric] p using f l b length_render_passes by blast
qed

theorem justify_last_word_edge_witness:
  "document_lines ''ab b c d\<newline>abc'' \<noteq> [] \<and>
   (\<exists>c' file. downloadAsPNG nearest_1024th example_host (Some mounted_canvas) ''ab b c d\<newline>abc''
                 (initial_style\<lparr>align := Justify\<rparr>) ''t'' = (Some c', file) \<and>
      fills (ctx_ops c')
        = [(''ab'', 1), (''b'', 208555 / 1024), (''c'', 405846 / 1024), (''d'', 603137 / 1024),
           (''abc'', 1)]) \<and>
   \<bar>603137 / 1024 + monospace 10 ''d'' - (availableWidth + padding)\<bar> \<le> (4 * 4 - 2) * (1 / 2048)"
proof -
  let ?style = "initial_style\<lparr>align := Justify\<rparr>"
  let ?W = "[''ab b c d'', ''abc'']"
  have m: "monospace 10 = measureText example_host (font_string ?style)"
    by (simp add: example_host_def)
  have W: "?W = wrap (monospace 10) availableWidth (document_lines ''ab b c d\<newline>abc'')"
    by (simp add: ex2_document ex2_wrap)
  have d: "document_lines ''ab b c d\<newline>abc'' \<noteq> []" by (simp add: ex2_document)
  have r: "\<forall>x. \<bar>x\<bar> \<le> 2048 \<longrightarrow> \<bar>nearest_1024th x - x\<bar> \<le> 1 / 2048"
    using nearest_1024th_error by blast
  have mag: "padding + availableWidth + 2 * sum_list (map (\<lambda>w. \<bar>monospace 10 w\<bar>) (words_of (?W ! 0)))
           + (4 * real (length (words_of (?W ! 0))) - 2) * (1 / 2048) \<le> 2048"
    by (simp add: ex2_words monospace_def availableWidth_def fixedWidth_def padding_def)
  from justify_last_word_edge [of "''ab b c d\<newline>abc''" ?style "monospace 10" example_host ?W 0
      2048 nearest_1024th "1 / 2048" mounted_canvas "''t''", OF d _ m W _ _ r _ mag]
  obtain c' dl where
    "downloadAsPNG nearest_1024th example_host (Some mounted_canvas) ''ab b c d\<newline>abc'' ?style ''t''
       = (Some c', dl)"
    and "fills (ctx_ops c') = concat (map fills (render_passes nearest_1024th (monospace 10) ?style ?W))"
    and "\<bar>snd (last (fills (render_passes nearest_1024th (monospace 10) ?style ?W ! 0)))
            + monospace 10 (last (words_of (?W ! 0))) - (availableWidth + padding)\<bar>
         \<le> (4 * real (length (words_of (?W ! 0))) - 2) * (1 / 2048)"
    by (auto simp: ex2_words)
  moreover have "fills (render_passes nearest_1024th (monospace 10) ?style ?W ! 0)
                 = map fills (render_passes nearest_1024th (monospace 10) ?style ?W) ! 0"
    by (simp add: length_render_passes)
  ultimately show ?thesis
    using d by (simp add: ex2_words ex2_passes)
qed

text \<open>
  Claim C5. In an export with \<open>align = justify\<close>, the drawing calls are those of the wrapped
  lines in order, one pass for each. The last wrapped line of the document and every line
  of a single word are drawn whole at \<open>x = padding\<close>. Every other line of several words is
  drawn word by word: the first word at \<open>padding\<close>, and each next word at the position of
  the word before it advanced by the width of that word plus \<open>spaceWidth\<close>, the same for
  every gap of the line, which in exact arithmetic is the slack of the line (the available
  width minus the widths of its words) divided by the number of gaps.
\<close>

theorem justify_exceptions_and_gaps:
  assumes "document_lines text \<noteq> []" and "align style = Justify"
    and "m = measureText h (font_string style)"
    and "W = wrap m availableWidth (document_lines text)"
  shows "(\<exists>c' file. downloadAsPNG rn h (Some c) text style title = (Some c', file) \<and>
            fills (ctx_ops c') = concat (map fills (render_passes rn m style W))) \<and>
         length (render_passes rn m style W) = length W \<and>
         (\<forall>i. i < length W \<longrightarrow>
            (i + 1 = length W \<or> length (words_of (W ! i)) \<le> 1 \<longrightarrow>
               fills (render_passes rn m style W ! i) = [(W ! i, padding)]) \<and>
            (i + 1 < length W \<and> length (words_of (W ! i)) > 1 \<longrightarrow>
               map fst (fills (render_passes rn m style W ! i)) = words_of (W ! i) \<and>
               snd (fills (render_passes rn m style W ! i) ! 0) = padding \<and>
               (\<forall>k. k + 1 < length (words_of (W ! i)) \<longrightarrow>
                  snd (fills (render_passes rn m style W ! i) ! (k + 1))
                  = rn (snd (fills (render_passes rn m style W ! i) ! k)
                        + rn (m (words_of (W ! i) ! k) + spaceWidth rn m (words_of (W ! i))))))) \<and>
         spaceWidth (\<lambda>x. x) m ws = (availableWidth - sum_list (map m ws)) / (real (length ws) - 1)"
proof (intro conjI allI impI)
  show "\<exists>c' file. downloadAsPNG rn h (Some c) text style title = (Some c', file) \<and>
            fills (ctx_ops c') = concat (map fills (render_passes rn m style W))"
    unfolding assms(3,4) using assms(1) by (rule export_fills)
  show "length (render_passes rn m style W) = length W" by (rule length_render_passes)
  show "spaceWidth (\<lambda>x. x) m ws = (availableWidth - sum_list (map m ws)) / (real (length ws) - 1)"
    by (rule spaceWidth_exact)
next
  fix i
  assume "i < length W" and "i + 1 = length W \<or> length (words_of (W ! i)) \<le> 1"
  with assms(2) show "fills (render_passes rn m style W ! i) = [(W ! i, padding)]"
    by (rule fills_pass_plain)
next
  fix i
  assume j: "i + 1 < length W \<and> length (words_of (W ! i)) > 1"
  let ?J = "justify_words rn m style (spaceWidth rn m (words_of (W ! i)))
              (padding + real i * lineHeight style) padding (words_of (W ! i))"
  have p: "render_passes rn m style W ! i = ?J"
    using assms(2) j by (intro pass_justified) simp_all
  show "map fst (fills (render_passes rn m style W ! i)) = words_of (W ! i)"
    unfolding p by (rule fills_justify_words_fst)
  show "snd (fills (render_passes rn m style W ! i) ! 0) = padding"
    unfolding p using j by (intro fills_justify_words_first) auto
  fix k
  assume "k + 1 < length (words_of (W ! i))"
  then show "snd (fills (render_passes rn m style W ! i) ! (k + 1))
             = rn (snd (fills (render_passes rn m style W ! i) ! k)
                   + rn (m (words_of (W ! i) ! k) + spaceWidth rn m (words_of (W ! i))))"
    unfolding p by (rule fills_justify_words_step)
qed

theorem justify_exceptions_and_gaps_witness:
  "(\<exists>c' file. downloadAsPNG nearest_1024th example_host (Some mounted_canvas)
                 ''ab b c d\<newline>xyz\<newline>abc'' (initial_style\<lparr>align := Justify\<rparr>) ''t''
               = (Some c', file) \<and>
      fills (ctx_ops c')
        = [(''ab'', 1), (''b'', 208555 / 1024), (''c'', 405846 / 1024), (''d'', 603137 / 1024),
           (''xyz'', 1), (''abc'', 1)]) \<and>
   fills (render_passes nearest_1024th (monospace 10) (initial_style\<lparr>align := Justify\<rparr>)
            [''ab b c d'', ''xyz'', ''abc''] ! 2) = [(''abc'', padding)] \<and>
   fills (render_passes nearest_1024th (monospace 10) (initial_style\<lparr>align := Justify\<rparr>)
            [''ab b c d'', ''xyz'', ''abc''] ! 1) = [(''xyz'', padding)] \<and>
   map fst (fills (render_passes nearest_1024th (monospace 10) (initial_style\<lparr>align := Justify\<rparr>)
            [''ab b c d'', ''xyz'', ''abc''] ! 0)) = [''ab'', ''b'', ''c'', ''d''] \<and>
   snd (fills (render_passes nearest_1024th (monospace 10) (initial_style\<lparr>align := Justify\<rparr>)
            [''ab b c d'', ''xyz'', ''abc''] ! 0) ! 1)
     = nearest_1024th (padding + nearest_1024th (monospace 10 ''ab'' + 187051 / 1024)) \<and>
   spaceWidth (\<lambda>x. x) (monospace 10) [''ab'', ''b'', ''c'', ''d''] = 548 / 3"
proof -
  let ?style = "initial_style\<lparr>align := Justify\<rparr>"
  let ?text = "''ab b c d\<newline>xyz\<newline>abc''"
  let ?W = "[''ab b c d'', ''xyz'', ''abc'']"
  let ?P = "render_passes nearest_1024th (monospace 10) ?style ?W"
  have m: "monospace 10 = measureText example_host (font_string ?style)"
    by (simp add: example_host_def)
  have W: "?W = wrap (monospace 10) availableWidth (document_lines ?text)"
    by (simp add: ex3_document ex3_wrap)
  have d: "document_lines ?text \<noteq> []" by (simp add: ex3_document)
  have j: "align ?style = Justify" by simp
  note t = justify_exceptions_and_gaps [OF d j m W, of nearest_1024th mounted_canvas "''t''"
      "[''ab'', ''b'', ''c'', ''d'']"]
  note passes = t [THEN conjunct2, THEN conjunct2, THEN conjunct1]
  from t obtain c' dl where
    c: "downloadAsPNG nearest_1024th example_host (Some mounted_canvas) ?text ?style ''t'' = (Some c', dl)"
    and f: "fills (ctx_ops c') = concat (map fills ?P)"
    by blast
  have last_line: "fills (?P ! 2) = [(''abc'', padding)]"
    using passes [THEN spec [where x = 2]] by simp
  have single: "fills (?P ! 1) = [(''xyz'', padding)]"
    using passes [THEN spec [where x = 1]] by (simp add: ex3_words)
  have first: "map fst (fills (?P ! 0)) = [''ab'', ''b'', ''c'', ''d''] \<and>
               (\<forall>k. k + 1 < 4 \<longrightarrow>
                  snd (fills (?P ! 0) ! (k + 1))
                  = nearest_1024th (snd (fills (?P ! 0) ! k)
                      + nearest_1024th (monospace 10 ([''ab'', ''b'', ''c'', ''d''] ! k) + 187051 / 1024))) \<and>
               snd (fills (?P ! 0) ! 0) = padding"
    using passes [THEN spec [where x = 0]] by (simp add: ex2_words ex2_space)
  then have step: "snd (fills (?P ! 0) ! 1)
                 = nearest_1024th (padding + nearest_1024th (monospace 10 ''ab'' + 187051 / 1024))"
    using first [THEN conjunct2, THEN conjunct1, THEN spec [where x = 0]] by simp
  have sw: "spaceWidth (\<lambda>x. x) (monospace 10) [''ab'', ''b'', ''c'', ''d''] = 548 / 3"
    using t [THEN conjunct2, THEN conjunct2, THEN conjunct2]
    by (simp add: monospace_def availableWidth_def fixedWidth_def padding_def)
  have "fills (ctx_ops c') = [(''ab'', 1), (''b'', 208555 / 1024), (''c'', 405846 / 1024),
      (''d'', 603137 / 1024), (''xyz'', 1), (''abc'', 1)]"
    using f by (simp add: ex3_passes)
  with c last_line single first step sw show ?thesis by simp
qed

text \<open>
  Claim C6. When no line of the document is left after the blank lines are dropped, the export
  returns with the surface as it was, neither resized nor drawn on, and triggers no download;
  the model is a total function, so nothing is raised.
\<close>

theorem empty_document_no_op:
  assumes "document_lines text = []"
  shows "\<exists>c'. downloadAsPNG rn h (Some c) text style title = (Some c', None) \<and>
              cv_width c' = cv_width c \<and> cv_height c' = cv_height c \<and>
              style_width c' = style_width c \<and> style_height c' = style_height c \<and>
              ctx_scale c' = ctx_scale c \<and> ctx_ops c' = ctx_ops c"
  using assms by (simp add: export_empty)

theorem empty_document_no_op_witness:
  "document_lines ''\<newline> \<newline>\<newline>'' = [] \<and>
   (\<exists>c'. downloadAsPNG nearest_1024th example_host (Some mounted_canvas) ''\<newline> \<newline>\<newline>''
           initial_style ''t''
           = (Some c', None) \<and>
         cv_width c' = 800 \<and> cv_height c' = 600 \<and> ctx_ops c' = [])"
  using empty_document_no_op [OF blank_document, of nearest_1024th example_host mounted_canvas
      initial_style "''t''"]
  by (auto simp: blank_document mounted_canvas_def)

text \<open>
  Claim C7, as the specification states it: the output surface height is the text height plus
  twice the padding, times the device scale. It fails for two lines at the initial font size
  11 on a display of pixel ratio 1: the text height is 27.5 and the value assigned to the
  height of the canvas is 29.5, of which the surface keeps 29 rows.
\<close>

theorem surface_height_counterexample:
  "\<exists>c' file. downloadAsPNG (\<lambda>x. x) (example_host\<lparr>devicePixelRatio := 1\<rparr>) (Some mounted_canvas)
                 ''a\<newline>b'' initial_style ''t'' = (Some c', file) \<and>
     cv_height c' = 29 \<and>
     (textHeight initial_style
        (wrap (measureText (example_host\<lparr>devicePixelRatio := 1\<rparr>) (font_string initial_style))
           availableWidth (document_lines ''a\<newline>b''))
      + 2 * padding) * deviceScale (example_host\<lparr>devicePixelRatio := 1\<rparr>) = 59 / 2 \<and>
     real (cv_height c') \<noteq> 59 / 2"
  by (simp add: export_nonempty two_lines_document Let_def example_host_def two_lines_wrap
      deviceScale_def textHeight_def lineHeight_def initial_style_def padding_def
      canvas_dimension_def unsigned_long_def)

text \<open>
  Claim C7, amended: for \<open>N\<close> wrapped lines at font size \<open>F\<close> the text height is
  \<open>N * (1.5 * F) - 0.5 * F\<close>; an export of a document with a line that is not blank sets the
  CSS height of the surface to the text height plus twice the padding, and assigns that sum
  times the device scale to the height of the canvas, an integer attribute: the output
  surface height is the integer part of the assigned value, for a value from 0 to below
  \<open>2^31\<close>.
\<close>

theorem height_formula:
  assumes "W = wrap (measureText h (font_string style)) availableWidth (document_lines text)"
    and "V = rn ((textHeight style W + padding * 2) * deviceScale h)"
  shows "textHeight style wrappedLines
           = real (length wrappedLines) * (1.5 * real_of_int (fontSize style))
               - 0.5 * real_of_int (fontSize style) \<and>
         (document_lines text \<noteq> [] \<longrightarrow>
            (\<exists>c' file. downloadAsPNG rn h (Some c) text style title = (Some c', file) \<and>
               style_height c' = textHeight style W + padding * 2 \<and>
               cv_height c' = canvas_dimension 150 V \<and>
               (0 \<le> V \<and> V < 2147483648 \<longrightarrow> int (cv_height c') = \<lfloor>V\<rfloor>)))"
proof (intro conjI impI)
  show "textHeight style wrappedLines
     = real (length wrappedLines) * (1.5 * real_of_int (fontSize style))
         - 0.5 * real_of_int (fontSize style)"
    by (simp add: textHeight_def lineHeight_def algebra_simps)
  assume "document_lines text \<noteq> []"
  then show "\<exists>c' file. downloadAsPNG rn h (Some c) text style title = (Some c', file) \<and>
               style_height c' = textHeight style W + padding * 2 \<and>
               cv_height c' = canvas_dimension 150 V \<and>
               (0 \<le> V \<and> V < 2147483648 \<longrightarrow> int (cv_height c') = \<lfloor>V\<rfloor>)"
    unfolding assms by (simp add: export_nonempty Let_def canvas_dimension_floor)
qed

theorem height_formula_witness:
  "document_lines ''a\<newline>b'' \<noteq> [] \<and>
   textHeight initial_style [''a'', ''b''] = 55 / 2 \<and>
   (\<exists>c' file. downloadAsPNG (\<lambda>x. x) (example_host\<lparr>devicePixelRatio := 1\<rparr>) (Some mounted_canvas)
                 ''a\<newline>b'' initial_style ''t'' = (Some c', file) \<and>
      style_height c' = 59 / 2 \<and> cv_height c' = canvas_dimension 150 (59 / 2) \<and>
      int (cv_height c') = \<lfloor>59 / 2 :: real\<rfloor> \<and> cv_height c' = 29)"
proof -
  let ?h = "example_host\<lparr>devicePixelRatio := 1\<rparr>"
  have d: "document_lines ''a\<newline>b'' \<noteq> []" by (simp add: two_lines_document)
  have th: "textHeight initial_style [''a'', ''b''] = 55 / 2"
    by (simp add: textHeight_def lineHeight_def initial_style_def)
  have W: "[''a'', ''b''] = wrap (measureText ?h (font_string initial_style)) availableWidth
             (document_lines ''a\<newline>b'')"
    by (simp add: two_lines_document example_host_def two_lines_wrap)
  have V: "59 / 2 = (textHeight initial_style [''a'', ''b''] + padding * 2) * deviceScale ?h"
    by (simp add: th deviceScale_def padding_def)
  from height_formula [where rn = "\<lambda>x. x" and wrappedLines = "[''a'', ''b'']"
      and c = mounted_canvas and title = "''t''", OF W V] d
  obtain c' dl where
    c: "downloadAsPNG (\<lambda>x. x) ?h (Some mounted_canvas) ''a\<newline>b'' initial_style ''t'' = (Some c', dl)"
    and s: "style_height c' = textHeight initial_style [''a'', ''b''] + padding * 2"
    and v: "cv_height c' = canvas_dimension 150 (59 / 2)"
    and f: "(0::real) \<le> 59 / 2 \<and> (59 / 2 :: real) < 2147483648
            \<longrightarrow> int (cv_height c') = \<lfloor>59 / 2 :: real\<rfloor>"
    by blast
  have "style_height c' = 59 / 2" using s by (simp add: th padding_def)
  moreover have "int (cv_height c') = \<lfloor>59 / 2 :: real\<rfloor>" using f by simp
  moreover have "cv_height c' = 29" using v by (simp add: canvas_dimension_def unsigned_long_def)
  ultimately show ?thesis using d th c v by blast
qed

text \<open>
  Claim C8, as the specification states it: two exports with the same document, style, title
  and measure function give the same surface dimensions. It fails when the device pixel
  ratio differs: the same export is 1200 pixels wide at ratio 2 and 600 pixels wide at ratio
  1.
\<close>

theorem surface_dimensions_counterexample:
  "measureText example_host = measureText (example_host\<lparr>devicePixelRatio := 1\<rparr>) \<and>
   map_option cv_width
     (fst (downloadAsPNG (\<lambda>x. x) example_host (Some mounted_canvas) ''hello world''
             initial_style ''t'')) = Some 1200 \<and>
   map_option cv_width
     (fst (downloadAsPNG (\<lambda>x. x) (example_host\<lparr>devicePixelRatio := 1\<rparr>) (Some mounted_canvas)
             ''hello world'' initial_style ''t'')) = Some 600"
  by (simp add: export_nonempty hello_document Let_def example_host_def deviceScale_def
      fixedWidth_def canvas_dimension_def unsigned_long_def)

text \<open>
  Claim C8, amended: two exports with the same document, style, title and measure function
  wrap the document into the same lines and issue the same drawing calls with the same fill
  style and font, whatever the surface was before; when the device pixel ratio is the same
  too, they leave the same surface, dimensions included, and with the same encoder the same
  download. Exporting again with unchanged inputs, on the surface that the first export left,
  gives the same surface and the same download.
\<close>

theorem export_deterministic:
  assumes "measureText h1 = measureText h2"
  shows "wrap (measureText h1 (font_string style)) availableWidth (document_lines text)
           = wrap (measureText h2 (font_string style)) availableWidth (document_lines text) \<and>
         (document_lines text \<noteq> [] \<longrightarrow>
            map_option ctx_ops (fst (downloadAsPNG rn h1 (Some c1) text style title))
              = map_option ctx_ops (fst (downloadAsPNG rn h2 (Some c2) text style title)) \<and>
            map_option ctx_fillStyle (fst (downloadAsPNG rn h1 (Some c1) text style title))
              = map_option ctx_fillStyle (fst (downloadAsPNG rn h2 (Some c2) text style title)) \<and>
            map_option ctx_font (fst (downloadAsPNG rn h1 (Some c1) text style title))
              = map_option ctx_font (fst (downloadAsPNG rn h2 (Some c2) text style title))) \<and>
         (document_lines text \<noteq> [] \<and> devicePixelRatio h1 = devicePixelRatio h2 \<longrightarrow>
            fst (downloadAsPNG rn h1 (Some c1) text style title)
              = fst (downloadAsPNG rn h2 (Some c2) text style title)) \<and>
         (document_lines text \<noteq> [] \<and> devicePixelRatio h1 = devicePixelRatio h2 \<and>
          toBlob h1 = toBlob h2 \<longrightarrow>
            downloadAsPNG rn h1 (Some c1) text style title
              = downloadAsPNG rn h2 (Some c2) text style title) \<and>
         downloadAsPNG rn h1 (fst (downloadAsPNG rn h1 canvasRef text style title)) text style title
           = downloadAsPNG rn h1 canvasRef text style title"
proof (intro conjI impI)
  show "wrap (measureText h1 (font_string style)) availableWidth (document_lines text)
           = wrap (measureText h2 (font_string style)) availableWidth (document_lines text)"
    using assms by simp
next
  assume "document_lines text \<noteq> []"
  then show "map_option ctx_ops (fst (downloadAsPNG rn h1 (Some c1) text style title))
              = map_option ctx_ops (fst (downloadAsPNG rn h2 (Some c2) text style title))"
    and "map_option ctx_fillStyle (fst (downloadAsPNG rn h1 (Some c1) text style title))
              = map_option ctx_fillStyle (fst (downloadAsPNG rn h2 (Some c2) text style title))"
    and "map_option ctx_font (fst (downloadAsPNG rn h1 (Some c1) text style title))
              = map_option ctx_font (fst (downloadAsPNG rn h2 (Some c2) text style title))"
    using assms by (simp_all add: export_nonempty Let_def)
next
  assume "document_lines text \<noteq> [] \<and> devicePixelRatio h1 = devicePixelRatio h2"
  then show "fst (downloadAsPNG rn h1 (Some c1) text style title)
              = fst (downloadAsPNG rn h2 (Some c2) text style title)"
    using assms by (simp add: export_nonempty Let_def deviceScale_def)
next
  assume "document_lines text \<noteq> [] \<and> devicePixelRatio h1 = devicePixelRatio h2 \<and>
          toBlob h1 = toBlob h2"
  then show "downloadAsPNG rn h1 (Some c1) text style title
              = downloadAsPNG rn h2 (Some c2) text style title"
    using assms by (simp add: export_nonempty Let_def deviceScale_def)
next
  show "downloadAsPNG rn h1 (fst (downloadAsPNG rn h1 canvasRef text style title)) text style title
     = downloadAsPNG rn h1 canvasRef text style title"
  proof (cases canvasRef)
    case None
    then show ?thesis by (simp add: downloadAsPNG_def)
  next
    case (Some c)
    show ?thesis
    proof (cases "document_lines text = []")
      case True
      then show ?thesis using Some by (simp add: export_empty)
    next
      case False
      then show ?thesis using Some by (simp add: export_nonempty Let_def)
    qed
  qed
qed

theorem export_deterministic_witness:
  "measureText example_host = measureText (example_host\<lparr>devicePixelRatio := 1\<rparr>) \<and>
   document_lines ''hello world'' \<noteq> [] \<and>
   map_option ctx_ops
     (fst (downloadAsPNG nearest_1024th example_host (Some mounted_canvas) ''hello world''
             initial_style ''t''))
   = map_option ctx_ops
       (fst (downloadAsPNG nearest_1024th (example_host\<lparr>devicePixelRatio := 1\<rparr>)
               (Some (mounted_canvas\<lparr>cv_width := 1, ctx_scale := 3\<rparr>)) ''hello world''
               initial_style ''t'')) \<and>
   fst (downloadAsPNG nearest_1024th example_host (Some mounted_canvas) ''hello world''
          initial_style ''t'')
   = fst (downloadAsPNG nearest_1024th (example_host\<lparr>toBlob := (\<lambda>c. None)\<rparr>)
            (Some (mounted_canvas\<lparr>cv_width := 1, ctx_scale := 3\<rparr>)) ''hello world''
            initial_style ''t'') \<and>
   downloadAsPNG nearest_1024th example_host
       (fst (downloadAsPNG nearest_1024th example_host (Some mounted_canvas) ''hello world''
               initial_style ''t''))
       ''hello world'' initial_style ''t''
     = downloadAsPNG nearest_1024th example_host (Some mounted_canvas) ''hello world''
         initial_style ''t''"
proof -
  let ?c2 = "mounted_canvas\<lparr>cv_width := 1, ctx_scale := 3\<rparr>"
  have m1: "measureText example_host = measureText (example_host\<lparr>devicePixelRatio := 1\<rparr>)"
    by simp
  have m2: "measureText example_host = measureText (example_host\<lparr>toBlob := (\<lambda>c. None)\<rparr>)"
    by simp
  have ne: "document_lines ''hello world'' \<noteq> []"
    by (simp add: hello_document)
  have r: "document_lines ''hello world'' \<noteq> [] \<and>
           devicePixelRatio example_host = devicePixelRatio (example_host\<lparr>toBlob := (\<lambda>c. None)\<rparr>)"
    using ne by simp
  note a = export_deterministic [OF m1, of initial_style "''hello world''" nearest_1024th
      mounted_canvas "''t''" ?c2 "Some mounted_canvas"]
  note b = export_deterministic [OF m2, of initial_style "''hello world''" nearest_1024th
      mounted_canvas "''t''" ?c2 "Some mounted_canvas"]
  have "map_option ctx_ops
     (fst (downloadAsPNG nearest_1024th example_host (Some mounted_canvas) ''hello world''
             initial_style ''t''))
   = map_option ctx_ops
       (fst (downloadAsPNG nearest_1024th (example_host\<lparr>devicePixelRatio := 1\<rparr>)
               (Some ?c2) ''hello world'' initial_style ''t''))"
    using a [THEN conjunct2, THEN conjunct1, THEN mp, OF ne] by blast
  moreover have "fst (downloadAsPNG nearest_1024th example_host (Some mounted_canvas) ''hello world''
          initial_style ''t'')
   = fst (downloadAsPNG nearest_1024th (example_host\<lparr>toBlob := (\<lambda>c. None)\<rparr>)
            (Some ?c2) ''hello world'' initial_style ''t'')"
    using b [THEN conjunct2, THEN conjunct2, THEN conjunct1, THEN mp, OF r] .
  moreover note a [THEN conjunct2, THEN conjunct2, THEN conjunct2, THEN conjunct2]
  ultimately show ?thesis using m1 ne by blast
qed

section \<open>The style descriptor: range of the font size and frames of the mutators\<close>

lemma changeFontSize_clamps: "fontSize_ok (changeFontSize delta prev)"
  by (simp add: fontSize_ok_def changeFontSize_def)

lemma toggleStyle_fontSize: "fontSize (toggleStyle p st) = fontSize st"
  by (cases p) simp_all

lemma apply_action_fontSize_ok: "fontSize_ok st \<Longrightarrow> fontSize_ok (apply_action st a)"
  by (cases a)
     (simp_all add: fontSize_ok_def toggleStyle_fontSize changeFontSize_def setAlignment_def
        changeColor_def)

lemma foldl_apply_action_fontSize_ok:
  "fontSize_ok st \<Longrightarrow> fontSize_ok (foldl apply_action st acts)"
  by (induction acts arbitrary: st) (simp_all add: apply_action_fontSize_ok)

text \<open>
  Claim C9. The font size of the style descriptor is always between 8 and 72: the initial
  descriptor has it there, \<open>changeFontSize\<close> leaves it there for every descriptor it
  starts from and every delta, and so does every sequence of user actions run from the
  initial descriptor.
\<close>

theorem fontSize_in_range:
  "fontSize_ok initial_style \<and> fontSize_ok (changeFontSize delta prev) \<and>
   fontSize_ok (run_actions acts)"
proof -
  have init: "fontSize_ok initial_style"
    by (simp add: fontSize_ok_def initial_style_def)
  from init have "fontSize_ok (run_actions acts)"
    unfolding run_actions_def by (rule foldl_apply_action_fontSize_ok)
  with init changeFontSize_clamps show ?thesis by simp
qed

theorem fontSize_in_range_witness:
  "fontSize (changeFontSize 1 (initial_style\<lparr>fontSize := 72\<rparr>)) = 72 \<and>
   fontSize (changeFontSize (- 1) (initial_style\<lparr>fontSize := 8\<rparr>)) = 8 \<and>
   fontSize_ok (changeFontSize 1 (initial_style\<lparr>fontSize := 72\<rparr>)) \<and>
   fontSize_ok (run_actions [ChangeFontSize 100, ToggleStyle Bold, ChangeFontSize (- 200)])"
  using fontSize_in_range [of 1 "initial_style\<lparr>fontSize := 72\<rparr>"
      "[ChangeFontSize 100, ToggleStyle Bold, ChangeFontSize (- 200)]"]
  by (simp add: changeFontSize_def)

text \<open>
  Claim C10. Each mutator changes its own field only: \<open>toggleStyle\<close> negates the boolean
  it names and keeps the other five fields, \<open>setAlignment\<close> sets \<open>align\<close>,
  \<open>changeFontSize\<close> touches \<open>fontSize\<close> alone and \<open>changeColor\<close> sets \<open>color\<close>; in
  each case every other field is the one of the previous descriptor.
\<close>

theorem mutators_frame:
  "bold (toggleStyle p st) = (if p = Bold then \<not> bold st else bold st) \<and>
   italic (toggleStyle p st) = (if p = Italic then \<not> italic st else italic st) \<and>
   underline (toggleStyle p st) = (if p = Underline then \<not> underline st else underline st) \<and>
   fontSize (toggleStyle p st) = fontSize st \<and>
   color (toggleStyle p st) = color st \<and>
   align (toggleStyle p st) = align st \<and>
   bold (setAlignment a st) = bold st \<and>
   italic (setAlignment a st) = italic st \<and>
   underline (setAlignment a st) = underline st \<and>
   fontSize (setAlignment a st) = fontSize st \<and>
   color (setAlignment a st) = color st \<and>
   align (setAlignment a st) = a \<and>
   bold (changeFontSize d st) = bold st \<and>
   italic (changeFontSize d st) = italic st \<and>
   underline (changeFontSize d st) = underline st \<and>
   color (changeFontSize d st) = color st \<and>
   align (changeFontSize d st) = align st \<and>
   bold (changeColor c st) = bold st \<and>
   italic (changeColor c st) = italic st \<and>
   underline (changeColor c st) = underline st \<and>
   fontSize (changeColor c st) = fontSize st \<and>
   color (changeColor c st) = c \<and>
   align (changeColor c st) = align st"
  by (cases p) (simp_all add: setAlignment_def changeFontSize_def changeColor_def)

theorem mutators_frame_witness:
  "toggleStyle Italic initial_style = initial_style\<lparr>italic := True\<rparr> \<and>
   fontSize (toggleStyle Italic initial_style) = 11 \<and>
   align (changeColor ''#ff0000'' initial_style) = Left"
  using mutators_frame [of Italic initial_style Right 1 "''#ff0000''"]
  by (simp add: initial_style_def)

end
